theory Spec2Isabelle
  imports Main "HOL-Library.AList" "HOL-Library.Sublist"
begin

section \<open>The file-tree store (FileTreeStore)\<close>

text \<open>
  A shallow embedding of the class \<^verbatim>\<open>FileTreeStore\<close>. The snapshot \<^verbatim>\<open>this._data\<close> is a
  record of JavaScript objects used as dictionaries. The store adds \<^verbatim>\<open>this._timer\<close> (the
  handle of the last \<^verbatim>\<open>setImmediate\<close>), the immediates that the event loop still has to
  run, the number of \<^verbatim>\<open>'change'\<close> emissions, and a log of what the store did to its
  collaborators (listing calls, logged errors, watch calls, disposed handles).
\<close>

subsection \<open>Objects as dictionaries\<close>

text \<open>
  A JavaScript object used as a dictionary is an association list in property order
  (\<^verbatim>\<open>Object.keys\<close> order). Writing an existing property keeps its position, writing a new
  one appends it, which is what \<^const>\<open>AList.update\<close> does. The keys here are path strings.
\<close>

type_synonym key = string
type_synonym 'v obj = "(key \<times> 'v) list"

definition getProp :: "'v obj \<Rightarrow> key \<Rightarrow> 'v option" where
  "getProp object k = map_of object k"

definition objectKeys :: "'v obj \<Rightarrow> key list" where
  "objectKeys object = map fst object"

definition hasOwnProperty :: "'v obj \<Rightarrow> key \<Rightarrow> bool" where
  "hasOwnProperty object k = (k \<in> set (objectKeys object))"

text \<open>\<^verbatim>\<open>deleteProperty\<close>: a copy without the key, or the object itself when the key is absent.\<close>

definition deleteProperty :: "'v obj \<Rightarrow> key \<Rightarrow> 'v obj" where
  "deleteProperty object k =
     (if \<not> hasOwnProperty object k then object else AList.delete k object)"

text \<open>\<^verbatim>\<open>setProperty\<close>: a copy with the key set, or the object itself when it already holds the value.\<close>

definition setProperty :: "'v obj \<Rightarrow> key \<Rightarrow> 'v \<Rightarrow> 'v obj" where
  "setProperty object k newValue =
     (if getProp object k = Some newValue then object else AList.update k newValue object)"

definition mapValues :: "'v obj \<Rightarrow> ('v \<Rightarrow> key \<Rightarrow> 'w) \<Rightarrow> 'w obj" where
  "mapValues object fn = map (\<lambda>(k, v). (k, fn v k)) object"

subsection \<open>Immutable sets\<close>

text \<open>
  \<^verbatim>\<open>Immutable.Set\<close> and \<^verbatim>\<open>Immutable.OrderedSet\<close> are lists without repetition, in insertion
  order; \<^verbatim>\<open>add\<close> of a member and \<^verbatim>\<open>delete\<close> of a non-member return the set itself. An
  \<^verbatim>\<open>Immutable.Set\<close> iterates in the order of its hash structure, which the list does not
  represent: what is stated about expansion sets below is about membership.
\<close>

definition has :: "key list \<Rightarrow> key \<Rightarrow> bool" where
  "has keySet k = (k \<in> set keySet)"

definition add :: "key list \<Rightarrow> key \<Rightarrow> key list" where
  "add keySet k = (if has keySet k then keySet else keySet @ [k])"

definition delete :: "key list \<Rightarrow> key \<Rightarrow> key list" where
  "delete keySet k = removeAll k keySet"

definition toArray :: "key list \<Rightarrow> key list" where
  "toArray keySet = keySet"

text \<open>\<^verbatim>\<open>new Immutable.Set(keys)\<close>, \<^verbatim>\<open>new Immutable.OrderedSet(keys)\<close>: the keys added one by one.\<close>

definition newSet :: "key list \<Rightarrow> key list" where
  "newSet keys = foldl add [] keys"

subsection \<open>The snapshot and the store\<close>

text \<open>
  Promises and watch subscriptions are objects with an identity only: each is a number
  taken from the store's allocation counter. The tracked node is an object literal
  allocated by \<^verbatim>\<open>_setTrackedNode\<close>, so it carries such a number as well.
\<close>

record trackedNodeData =
  trackedId :: nat
  trackedNodeKey :: key
  trackedRootKey :: key

record storeData =
  childKeyMap :: "key list obj"
  isDirtyMap :: "bool obj"
  expandedKeysByRoot :: "key list obj"
  trackedNode :: "trackedNodeData option"
  previouslyExpanded :: "key list obj obj"
  isLoadingMap :: "nat obj"
  rootKeys :: "key list"
  selectedKeysByRoot :: "key list obj"
  subscriptionMap :: "nat obj"
  vcsStatusesByRoot :: "(key \<times> int) list obj"

record 'd store =
  data :: 'd
  timer :: "nat option"
  immediates :: "nat list"
  emitted :: nat
  nextId :: nat
  fetchCalls :: "key list"
  errorLog :: "key list"
  watchCalls :: "key list"
  disposed :: "nat list"

text \<open>
  The collaborators of \<^verbatim>\<open>FileTreeHelpers\<close> that the store consults synchronously:
  the key classifier, whether a key has a directory object, and whether watching that
  directory throws.
\<close>

record helpers =
  isDirKey :: "key \<Rightarrow> bool"
  getDirectoryByKey :: "key \<Rightarrow> bool"
  onDidChangeThrows :: "key \<Rightarrow> bool"

definition getDefaults :: storeData where
  "getDefaults =
     \<lparr> childKeyMap = [], isDirtyMap = [], expandedKeysByRoot = [], trackedNode = None,
       previouslyExpanded = [], isLoadingMap = [], rootKeys = [], selectedKeysByRoot = [],
       subscriptionMap = [], vcsStatusesByRoot = [] \<rparr>"

definition FileTreeStore :: "storeData store" where
  "FileTreeStore =
     \<lparr> data = getDefaults, timer = None, immediates = [], emitted = 0, nextId = 0,
       fetchCalls = [], errorLog = [], watchCalls = [], disposed = [] \<rparr>"

text \<open>
  \<^verbatim>\<open>_set(key, value, flush)\<close>. The argument \<open>setProp\<close> is \<^verbatim>\<open>setProperty(this._data, key, value)\<close>
  as a function of the snapshot, and \<open>\<noteq>\<close> on snapshots stands for \<^verbatim>\<open>!==\<close>. When the snapshot
  changes, \<^verbatim>\<open>clearImmediate(this._timer)\<close> takes the handle out of the pending immediates;
  a flush emits at once, otherwise \<^verbatim>\<open>setImmediate\<close> schedules a new handle.

  \<^verbatim>\<open>!==\<close> and the \<^verbatim>\<open>===\<close> inside \<^verbatim>\<open>setProperty\<close> compare objects by identity. On the snapshot
  record below they are read as comparison of contents, which differs from the code only
  when a write stores a newly made array or set equal to the one already there: the code
  then replaces the snapshot and schedules a change, the model does neither, and the
  contents of the snapshot are the same in both. The function is polymorphic in the
  snapshot, so what is proved about notifications holds for every reading of \<^verbatim>\<open>!==\<close>.
\<close>

definition clearImmediate :: "nat option \<Rightarrow> nat list \<Rightarrow> nat list" where
  "clearImmediate handle pending =
     (case handle of None \<Rightarrow> pending | Some h \<Rightarrow> removeAll h pending)"

definition set' :: "('d \<Rightarrow> 'd) \<Rightarrow> bool \<Rightarrow> 'd store \<Rightarrow> 'd store" where
  "set' setProp flush s =
     (let oldData = data s; newData = setProp oldData in
      if newData \<noteq> oldData then
        (let s1 = s\<lparr>data := newData, immediates := clearImmediate (timer s) (immediates s)\<rparr> in
         if flush then s1\<lparr>emitted := Suc (emitted s1)\<rparr>
         else s1\<lparr>timer := Some (nextId s1), immediates := immediates s1 @ [nextId s1],
                 nextId := Suc (nextId s1)\<rparr>)
      else s)"

text \<open>
  The end of the tick: the event loop runs every pending immediate, and each callback
  emits one change.
\<close>

definition runImmediates :: "'d store \<Rightarrow> 'd store" where
  "runImmediates s = s\<lparr>emitted := emitted s + length (immediates s), immediates := []\<rparr>"

subsection \<open>Expansion and selection\<close>

definition getExpandedKeys :: "key \<Rightarrow> storeData store \<Rightarrow> key list" where
  "getExpandedKeys rootKey s =
     (case getProp (expandedKeysByRoot (data s)) rootKey of None \<Rightarrow> [] | Some ks \<Rightarrow> ks)"

definition isExpanded :: "key \<Rightarrow> key \<Rightarrow> storeData store \<Rightarrow> bool" where
  "isExpanded rootKey nodeKey s = has (getExpandedKeys rootKey s) nodeKey"

definition setExpandedKeys :: "key \<Rightarrow> key list \<Rightarrow> storeData store \<Rightarrow> storeData store" where
  "setExpandedKeys rootKey expandedKeys s =
     set' (\<lambda>d. d\<lparr>expandedKeysByRoot := setProperty (expandedKeysByRoot d) rootKey expandedKeys\<rparr>)
       False s"

definition getSelectedKeys :: "key \<Rightarrow> storeData store \<Rightarrow> key list" where
  "getSelectedKeys rootKey s =
     (case getProp (selectedKeysByRoot (data s)) rootKey of None \<Rightarrow> [] | Some ks \<Rightarrow> ks)"

definition isSelected :: "key \<Rightarrow> key \<Rightarrow> storeData store \<Rightarrow> bool" where
  "isSelected rootKey nodeKey s = has (getSelectedKeys rootKey s) nodeKey"

definition setSelectedKeys :: "key \<Rightarrow> key list \<Rightarrow> storeData store \<Rightarrow> storeData store" where
  "setSelectedKeys rootKey selectedKeys s =
     set' (\<lambda>d. d\<lparr>selectedKeysByRoot := setProperty (selectedKeysByRoot d) rootKey selectedKeys\<rparr>)
       False
       (set' (\<lambda>d. d\<lparr>trackedNode := None\<rparr>) False s)"

subsection \<open>Subscriptions\<close>

text \<open>\<^verbatim>\<open>this._data.subscriptionMap[nodeKey]\<close>, the watch handle held for a key.\<close>

definition getSubscription :: "key \<Rightarrow> storeData store \<Rightarrow> nat option" where
  "getSubscription nodeKey s = getProp (subscriptionMap (data s)) nodeKey"

definition removeAllSubscriptions :: "key \<Rightarrow> storeData store \<Rightarrow> storeData store" where
  "removeAllSubscriptions nodeKey s =
     (case getProp (subscriptionMap (data s)) nodeKey of
        None \<Rightarrow> s
      | Some subscription \<Rightarrow>
          set' (\<lambda>d. d\<lparr>subscriptionMap := deleteProperty (subscriptionMap d) nodeKey\<rparr>) False
            (s\<lparr>disposed := disposed s @ [subscription]\<rparr>))"

subsection \<open>Purging a directory\<close>

text \<open>
  The two \<^verbatim>\<open>forEach\<close> loops at the end of \<^verbatim>\<open>_purgeDirectory\<close> read the map that was current
  before the loop and write one root each.
\<close>

definition purgeExpandedKeys :: "key \<Rightarrow> storeData store \<Rightarrow> storeData store" where
  "purgeExpandedKeys nodeKey s =
     (let byRoot = expandedKeysByRoot (data s) in
      foldl (\<lambda>s rootKey.
               case getProp byRoot rootKey of
                 None \<Rightarrow> s
               | Some expandedKeys \<Rightarrow>
                   if has expandedKeys nodeKey
                   then setExpandedKeys rootKey (delete expandedKeys nodeKey) s else s)
        s (objectKeys byRoot))"

definition purgeSelectedKeys :: "key \<Rightarrow> storeData store \<Rightarrow> storeData store" where
  "purgeSelectedKeys nodeKey s =
     (let byRoot = selectedKeysByRoot (data s) in
      foldl (\<lambda>s rootKey.
               case getProp byRoot rootKey of
                 None \<Rightarrow> s
               | Some selectedKeys \<Rightarrow>
                   if has selectedKeys nodeKey
                   then setSelectedKeys rootKey (delete selectedKeys nodeKey) s else s)
        s (objectKeys byRoot))"

text \<open>
  \<^verbatim>\<open>_purgeDirectory\<close> recurses through the cached child lists; on a cyclic cache the
  JavaScript never returns. The first argument bounds the recursion depth, and \<open>None\<close>
  says that the bound was not enough.
\<close>

fun purgeDirectory :: "helpers \<Rightarrow> nat \<Rightarrow> key \<Rightarrow> storeData store \<Rightarrow> storeData store option"
  and purgeChildKeys :: "helpers \<Rightarrow> nat \<Rightarrow> key list \<Rightarrow> storeData store \<Rightarrow> storeData store option"
where
  "purgeDirectory H 0 nodeKey s = None"
| "purgeDirectory H (Suc n) nodeKey s =
     (case getProp (childKeyMap (data s)) nodeKey of
        None \<Rightarrow>
          Some (purgeSelectedKeys nodeKey (purgeExpandedKeys nodeKey
                  (removeAllSubscriptions nodeKey s)))
      | Some childKeys \<Rightarrow>
          (case purgeChildKeys H n childKeys s of
             None \<Rightarrow> None
           | Some s1 \<Rightarrow>
               Some (purgeSelectedKeys nodeKey (purgeExpandedKeys nodeKey
                 (removeAllSubscriptions nodeKey
                   (set' (\<lambda>d. d\<lparr>childKeyMap := deleteProperty (childKeyMap d) nodeKey\<rparr>)
                      False s1))))))"
| "purgeChildKeys H n [] s = Some s"
| "purgeChildKeys H n (childKey # childKeys) s =
     (if isDirKey H childKey
      then (case purgeDirectory H n childKey s of
              None \<Rightarrow> None
            | Some s1 \<Rightarrow> purgeChildKeys H n childKeys s1)
      else purgeChildKeys H n childKeys s)"


subsection \<open>Installing a child list\<close>

text \<open>
  \<^verbatim>\<open>_setChildKeys\<close> purges every old child that is a directory key and is not in the new
  list: the old children outside the new list are handed to the loop above, which
  purges the directory keys among them.
\<close>

definition setChildKeys ::
  "helpers \<Rightarrow> nat \<Rightarrow> key \<Rightarrow> key list \<Rightarrow> storeData store \<Rightarrow> storeData store option" where
  "setChildKeys H n nodeKey childKeys s =
     (case (case getProp (childKeyMap (data s)) nodeKey of
              None \<Rightarrow> Some s
            | Some oldChildKeys \<Rightarrow>
                purgeChildKeys H n
                  (filter (\<lambda>childKey. childKey \<notin> set childKeys) oldChildKeys) s) of
        None \<Rightarrow> None
      | Some s1 \<Rightarrow>
          Some (set' (\<lambda>d. d\<lparr>childKeyMap := setProperty (childKeyMap d) nodeKey childKeys\<rparr>)
                  False s1))"

definition createChild ::
  "helpers \<Rightarrow> nat \<Rightarrow> key \<Rightarrow> key \<Rightarrow> storeData store \<Rightarrow> storeData store option" where
  "createChild H n nodeKey childKey s =
     (case setChildKeys H n nodeKey [childKey] s of
        None \<Rightarrow> None
      | Some s1 \<Rightarrow>
          Some (set' (\<lambda>d. d\<lparr>isDirtyMap := setProperty (isDirtyMap d) nodeKey True\<rparr>) False s1))"

subsection \<open>Acquiring and releasing a watch\<close>

definition addSubscription :: "helpers \<Rightarrow> key \<Rightarrow> storeData store \<Rightarrow> storeData store" where
  "addSubscription H nodeKey s =
     (if \<not> getDirectoryByKey H nodeKey then s
      else
        let s1 = set' (\<lambda>d. d\<lparr>isDirtyMap := deleteProperty (isDirtyMap d) nodeKey\<rparr>) False s in
        if getProp (subscriptionMap (data s1)) nodeKey \<noteq> None then s1
        else
          let s2 = s1\<lparr>watchCalls := watchCalls s1 @ [nodeKey]\<rparr> in
          if onDidChangeThrows H nodeKey then s2\<lparr>errorLog := errorLog s2 @ [nodeKey]\<rparr>
          else
            let subscription = nextId s2 in
            set' (\<lambda>d. d\<lparr>subscriptionMap :=
                          setProperty (subscriptionMap d) nodeKey subscription\<rparr>) False
              (s2\<lparr>nextId := Suc (nextId s2)\<rparr>))"

definition removeSubscription :: "key \<Rightarrow> key \<Rightarrow> storeData store \<Rightarrow> storeData store" where
  "removeSubscription rootKey nodeKey s =
     (case getProp (subscriptionMap (data s)) nodeKey of
        None \<Rightarrow> s
      | Some subscription \<Rightarrow>
          let hasRemainingSubscribers =
                list_ex (\<lambda>otherRootKey. otherRootKey \<noteq> rootKey \<and> isExpanded otherRootKey nodeKey s)
                  (rootKeys (data s)) in
          if \<not> hasRemainingSubscribers then
            set' (\<lambda>d. d\<lparr>isDirtyMap := setProperty (isDirtyMap d) nodeKey True\<rparr>) False
              (set' (\<lambda>d. d\<lparr>subscriptionMap := deleteProperty (subscriptionMap d) nodeKey\<rparr>) False
                 (s\<lparr>disposed := disposed s @ [subscription]\<rparr>))
          else s)"

subsection \<open>Roots\<close>

definition purgeRoot :: "helpers \<Rightarrow> key \<Rightarrow> storeData store \<Rightarrow> storeData store" where
  "purgeRoot H rootKey s =
     (let s1 = (case getProp (expandedKeysByRoot (data s)) rootKey of
                  None \<Rightarrow> s
                | Some expandedKeys \<Rightarrow>
                    set' (\<lambda>d. d\<lparr>expandedKeysByRoot :=
                                  deleteProperty (expandedKeysByRoot d) rootKey\<rparr>) False
                      (foldl (\<lambda>s nodeKey. removeSubscription rootKey nodeKey s) s expandedKeys));
          s2 = set' (\<lambda>d. d\<lparr>selectedKeysByRoot :=
                            deleteProperty (selectedKeysByRoot d) rootKey\<rparr>) False s1;
          s3 = (case getProp (childKeyMap (data s2)) rootKey of
                  None \<Rightarrow> s2
                | Some childKeys \<Rightarrow>
                    set' (\<lambda>d. d\<lparr>childKeyMap := deleteProperty (childKeyMap d) rootKey\<rparr>) False
                      (foldl (\<lambda>s childKey.
                                if isDirKey H childKey
                                then set' (\<lambda>d. d\<lparr>childKeyMap :=
                                                   deleteProperty (childKeyMap d) childKey\<rparr>) False s
                                else s)
                         s2 childKeys))
      in set' (\<lambda>d. d\<lparr>vcsStatusesByRoot := deleteProperty (vcsStatusesByRoot d) rootKey\<rparr>)
           False s3)"

definition setRootKeys :: "helpers \<Rightarrow> key list \<Rightarrow> storeData store \<Rightarrow> storeData store" where
  "setRootKeys H newRootKeys s =
     set' (\<lambda>d. d\<lparr>rootKeys := newRootKeys\<rparr>) False
       (foldl (\<lambda>s rootKey. if rootKey \<notin> set newRootKeys then purgeRoot H rootKey s else s)
          s (rootKeys (data s)))"

subsection \<open>Expanding and collapsing\<close>

text \<open>
  \<^verbatim>\<open>this._data.previouslyExpanded[rootKey] || {}\<close>, the remembered children of a root.
\<close>

definition getPreviouslyExpanded :: "key \<Rightarrow> storeData store \<Rightarrow> key list obj" where
  "getPreviouslyExpanded rootKey s =
     (case getProp (previouslyExpanded (data s)) rootKey of None \<Rightarrow> [] | Some p \<Rightarrow> p)"

definition setPreviouslyExpanded :: "key \<Rightarrow> key list obj \<Rightarrow> storeData store \<Rightarrow> storeData store" where
  "setPreviouslyExpanded rootKey prev s =
     set' (\<lambda>d. d\<lparr>previouslyExpanded := setProperty (previouslyExpanded d) rootKey prev\<rparr>) False s"

text \<open>
  \<^verbatim>\<open>_expandNode\<close> first adds the node to the root's expansion set (\<open>expandSelf\<close>). It reads
  the root's \<^verbatim>\<open>previouslyExpanded\<close> object once, before it expands the remembered children,
  and in the end writes that object back without the node's own entry.
\<close>

definition expandSelf :: "key \<Rightarrow> key \<Rightarrow> storeData store \<Rightarrow> storeData store" where
  "expandSelf rootKey nodeKey s =
     setExpandedKeys rootKey (add (getExpandedKeys rootKey s) nodeKey) s"

fun expandNode :: "nat \<Rightarrow> key \<Rightarrow> key \<Rightarrow> storeData store \<Rightarrow> storeData store option"
  and expandChildKeys :: "nat \<Rightarrow> key \<Rightarrow> key list \<Rightarrow> storeData store \<Rightarrow> storeData store option"
where
  "expandNode 0 rootKey nodeKey s = None"
| "expandNode (Suc n) rootKey nodeKey s =
     (case getProp (getPreviouslyExpanded rootKey (expandSelf rootKey nodeKey s)) nodeKey of
        None \<Rightarrow> Some (expandSelf rootKey nodeKey s)
      | Some childKeys \<Rightarrow>
          (case expandChildKeys n rootKey childKeys (expandSelf rootKey nodeKey s) of
             None \<Rightarrow> None
           | Some s2 \<Rightarrow>
               Some (setPreviouslyExpanded rootKey
                       (deleteProperty
                          (getPreviouslyExpanded rootKey (expandSelf rootKey nodeKey s)) nodeKey)
                       s2)))"
| "expandChildKeys n rootKey [] s = Some s"
| "expandChildKeys n rootKey (childKey # childKeys) s =
     (case expandNode n rootKey childKey s of
        None \<Rightarrow> None
      | Some s1 \<Rightarrow> expandChildKeys n rootKey childKeys s1)"

text \<open>
  The loop of \<^verbatim>\<open>_collapseNode\<close> carries the local \<^verbatim>\<open>selectedKeys\<close> (read once before the
  loop) and the list \<^verbatim>\<open>expandedChildKeys\<close> along with the store. For each child it first
  unselects the child: \<open>unselected\<close> is the new value of the local, \<open>unselectChild\<close> the
  store after the \<^verbatim>\<open>_setSelectedKeys\<close> call, if there is one.
\<close>

definition unselected :: "key \<Rightarrow> key list option \<Rightarrow> key list option" where
  "unselected childKey selectedKeys =
     (case selectedKeys of
        None \<Rightarrow> None
      | Some keySet \<Rightarrow>
          if has keySet childKey then Some (delete keySet childKey) else Some keySet)"

definition unselectChild ::
  "key \<Rightarrow> key \<Rightarrow> key list option \<Rightarrow> storeData store \<Rightarrow> storeData store" where
  "unselectChild rootKey childKey selectedKeys s =
     (case selectedKeys of
        None \<Rightarrow> s
      | Some keySet \<Rightarrow>
          if has keySet childKey then setSelectedKeys rootKey (delete keySet childKey) s else s)"

text \<open>
  What \<^verbatim>\<open>_collapseNode\<close> does after the loop: it remembers the expanded children (or
  forgets the node's entry when there is none), takes the node out of the root's
  expansion set and releases the node's subscription.
\<close>

definition collapseSelf ::
  "key \<Rightarrow> key \<Rightarrow> key list \<Rightarrow> storeData store \<Rightarrow> storeData store" where
  "collapseSelf rootKey nodeKey expandedChildKeys s1 =
     (let prev0 = getPreviouslyExpanded rootKey s1;
          prev1 = (if expandedChildKeys \<noteq> []
                   then setProperty prev0 nodeKey expandedChildKeys
                   else deleteProperty prev0 nodeKey);
          s2 = setPreviouslyExpanded rootKey prev1 s1;
          s3 = setExpandedKeys rootKey (delete (getExpandedKeys rootKey s2) nodeKey) s2
      in removeSubscription rootKey nodeKey s3)"

fun collapseNode ::
    "helpers \<Rightarrow> nat \<Rightarrow> key \<Rightarrow> key \<Rightarrow> storeData store \<Rightarrow> storeData store option"
  and collapseChildKeys ::
    "helpers \<Rightarrow> nat \<Rightarrow> key \<Rightarrow> key list \<Rightarrow> key list option \<Rightarrow> key list \<Rightarrow> storeData store
       \<Rightarrow> (key list \<times> storeData store) option"
where
  "collapseNode H 0 rootKey nodeKey s = None"
| "collapseNode H (Suc n) rootKey nodeKey s =
     (case getProp (childKeyMap (data s)) nodeKey of
        None \<Rightarrow> Some (collapseSelf rootKey nodeKey [] s)
      | Some childKeys \<Rightarrow>
          (case collapseChildKeys H n rootKey childKeys
                  (getProp (selectedKeysByRoot (data s)) rootKey) [] s of
             None \<Rightarrow> None
           | Some (expandedChildKeys, s1) \<Rightarrow>
               Some (collapseSelf rootKey nodeKey expandedChildKeys s1)))"
| "collapseChildKeys H n rootKey [] selectedKeys expandedChildKeys s =
     Some (expandedChildKeys, s)"
| "collapseChildKeys H n rootKey (childKey # childKeys) selectedKeys expandedChildKeys s =
     (if isDirKey H childKey \<and>
         isExpanded rootKey childKey (unselectChild rootKey childKey selectedKeys s)
      then (case collapseNode H n rootKey childKey
                   (unselectChild rootKey childKey selectedKeys s) of
              None \<Rightarrow> None
            | Some s2 \<Rightarrow>
                collapseChildKeys H n rootKey childKeys (unselected childKey selectedKeys)
                  (expandedChildKeys @ [childKey]) s2)
      else collapseChildKeys H n rootKey childKeys (unselected childKey selectedKeys)
             expandedChildKeys (unselectChild rootKey childKey selectedKeys s))"

subsection \<open>Fetching child keys\<close>

definition getRootForKey :: "key \<Rightarrow> storeData store \<Rightarrow> key option" where
  "getRootForKey nodeKey s = find (\<lambda>rootKey. prefix rootKey nodeKey) (rootKeys (data s))"

definition isRootKey :: "key \<Rightarrow> storeData store \<Rightarrow> bool" where
  "isRootKey nodeKey s = (nodeKey \<in> set (rootKeys (data s)))"

definition getLoading :: "key \<Rightarrow> storeData store \<Rightarrow> nat option" where
  "getLoading nodeKey s = getProp (isLoadingMap (data s)) nodeKey"

definition isLoading :: "key \<Rightarrow> key \<Rightarrow> storeData store \<Rightarrow> bool" where
  "isLoading rootKey nodeKey s = (getLoading nodeKey s \<noteq> None)"

definition setLoading :: "key \<Rightarrow> nat \<Rightarrow> storeData store \<Rightarrow> storeData store" where
  "setLoading nodeKey value s =
     set' (\<lambda>d. d\<lparr>isLoadingMap := setProperty (isLoadingMap d) nodeKey value\<rparr>) False s"

definition checkTrackedNode :: "storeData store \<Rightarrow> storeData store" where
  "checkTrackedNode s =
     (if trackedNode (data s) \<noteq> None \<and> isLoadingMap (data s) = []
      then set' (\<lambda>d. d\<lparr>trackedNode := None\<rparr>) False s else s)"

definition clearLoading :: "key \<Rightarrow> storeData store \<Rightarrow> storeData store" where
  "clearLoading nodeKey s =
     checkTrackedNode
       (set' (\<lambda>d. d\<lparr>isLoadingMap := deleteProperty (isLoadingMap d) nodeKey\<rparr>) False s)"

text \<open>
  \<^verbatim>\<open>_fetchChildKeys\<close> returns the pending promise when there is one. Otherwise it calls
  \<^verbatim>\<open>FileTreeHelpers.fetchChildren\<close> (recorded in \<open>fetchCalls\<close>) and stores the new promise.
  The two callbacks it attaches run later, when the listing settles: they are
  \<open>fetchResolved\<close> and \<open>fetchRejected\<close> below.
\<close>

definition fetchChildKeys :: "key \<Rightarrow> storeData store \<Rightarrow> nat \<times> storeData store" where
  "fetchChildKeys nodeKey s =
     (case getLoading nodeKey s of
        Some existingPromise \<Rightarrow> (existingPromise, s)
      | None \<Rightarrow>
          let promise = nextId s;
              s1 = s\<lparr>nextId := Suc (nextId s), fetchCalls := fetchCalls s @ [nodeKey]\<rparr>
          in (promise, setLoading nodeKey promise s1))"


definition fetchResolved ::
  "helpers \<Rightarrow> nat \<Rightarrow> key \<Rightarrow> key list \<Rightarrow> storeData store \<Rightarrow> storeData store option" where
  "fetchResolved H n nodeKey childKeys s =
     (case getRootForKey nodeKey s of
        None \<Rightarrow> Some s
      | Some rootKey \<Rightarrow>
          (case setChildKeys H n nodeKey childKeys s of
             None \<Rightarrow> None
           | Some s1 \<Rightarrow> Some (clearLoading nodeKey (addSubscription H nodeKey s1))))"

subsection \<open>Queries\<close>

definition isDirty :: "key \<Rightarrow> storeData store \<Rightarrow> bool" where
  "isDirty nodeKey s = (getProp (isDirtyMap (data s)) nodeKey = Some True)"

definition getCachedChildKeys :: "key \<Rightarrow> key \<Rightarrow> storeData store \<Rightarrow> key list" where
  "getCachedChildKeys rootKey nodeKey s =
     (case getProp (childKeyMap (data s)) nodeKey of None \<Rightarrow> [] | Some childKeys \<Rightarrow> childKeys)"

definition getChildKeys :: "key \<Rightarrow> key \<Rightarrow> storeData store \<Rightarrow> key list \<times> storeData store" where
  "getChildKeys rootKey nodeKey s =
     (let childKeys = getProp (childKeyMap (data s)) nodeKey in
      (case childKeys of None \<Rightarrow> [] | Some cs \<Rightarrow> cs,
       if childKeys = None \<or> isDirty nodeKey s
       then snd (fetchChildKeys nodeKey s) else checkTrackedNode s))"

text \<open>
  A \<^verbatim>\<open>FileTreeNode\<close> is the pair of the root key and the node key it was made from.
  The loop of \<^verbatim>\<open>getVisibleNodes\<close> keeps a stack (its top is the head of the list, so the
  children pushed last are explored first); the bound counts its iterations.
\<close>

type_synonym node = "key \<times> key"

definition getNode :: "key \<Rightarrow> key \<Rightarrow> node" where
  "getNode rootKey nodeKey = (rootKey, nodeKey)"

fun exploreDirectories ::
  "helpers \<Rightarrow> key \<Rightarrow> storeData store \<Rightarrow> nat \<Rightarrow> key list \<Rightarrow> node list \<Rightarrow> node list option" where
  "exploreDirectories H rootKey s n [] visibleNodes = Some visibleNodes"
| "exploreDirectories H rootKey s 0 (k # stack) visibleNodes = None"
| "exploreDirectories H rootKey s (Suc n) (k # stack) visibleNodes =
     (let visibleNodes1 = visibleNodes @ [getNode k k] in
      case getProp (childKeyMap (data s)) k of
        None \<Rightarrow> exploreDirectories H rootKey s n stack visibleNodes1
      | Some childKeys \<Rightarrow>
          if isDirty k s then exploreDirectories H rootKey s n stack visibleNodes1
          else
            let (stack2, visibleNodes2) =
                  foldl (\<lambda>(st, vis) childKey.
                           if isDirKey H childKey
                           then (if isExpanded rootKey k s then (childKey # st, vis) else (st, vis))
                           else (st, vis @ [getNode k childKey]))
                    (stack, visibleNodes1) childKeys
            in exploreDirectories H rootKey s n stack2 visibleNodes2)"

definition getVisibleNodes :: "helpers \<Rightarrow> nat \<Rightarrow> key \<Rightarrow> storeData store \<Rightarrow> node list option" where
  "getVisibleNodes H n rootKey s =
     (if \<not> isRootKey rootKey s then Some []
      else if \<not> isExpanded rootKey rootKey s then Some [getNode rootKey rootKey]
      else exploreDirectories H rootKey s n [rootKey] [])"

definition getSingleSelectedNode :: "storeData store \<Rightarrow> node option" where
  "getSingleSelectedNode s =
     (let selectedRoots = objectKeys (selectedKeysByRoot (data s)) in
      if length selectedRoots \<noteq> 1 then None
      else
        let rootKey = hd selectedRoots;
            selectedKeys = getSelectedKeys rootKey s
        in if length selectedKeys = 1 then Some (getNode rootKey (hd selectedKeys)) else None)"

subsection \<open>The tracked node\<close>

definition setTrackedNode :: "key \<Rightarrow> key \<Rightarrow> storeData store \<Rightarrow> storeData store" where
  "setTrackedNode rootKey nodeKey s =
     set' (\<lambda>d. d\<lparr>trackedNode :=
                   Some \<lparr>trackedId = nextId s, trackedNodeKey = nodeKey, trackedRootKey = rootKey\<rparr>\<rparr>)
       True (s\<lparr>nextId := Suc (nextId s)\<rparr>)"

subsection \<open>Export and import\<close>

definition VERSION :: int where
  "VERSION = 1"

text \<open>
  The exported \<^verbatim>\<open>childKeyMap\<close> has a property for every expanded key; its value is
  \<^verbatim>\<open>undefined\<close> (here \<open>None\<close>) when the store has no child list for the key.
\<close>

record exportStoreData =
  version :: int
  exChildKeyMap :: "key list option obj"
  exExpandedKeysByRoot :: "key list obj"
  exRootKeys :: "key list"
  exSelectedKeysByRoot :: "key list obj"

definition exportData :: "storeData store \<Rightarrow> exportStoreData" where
  "exportData s =
     (let d = data s;
          exported =
            foldl (\<lambda>m rootKey.
                     foldl (\<lambda>m nodeKey. AList.update nodeKey (getProp (childKeyMap d) nodeKey) m)
                       m (case getProp (expandedKeysByRoot d) rootKey of
                            None \<Rightarrow> [] | Some expandedKeySet \<Rightarrow> expandedKeySet))
              [] (objectKeys (expandedKeysByRoot d))
      in \<lparr> version = VERSION,
           exChildKeyMap = exported,
           exExpandedKeysByRoot = mapValues (expandedKeysByRoot d) (\<lambda>keySet _. toArray keySet),
           exRootKeys = rootKeys d,
           exSelectedKeysByRoot = mapValues (selectedKeysByRoot d) (\<lambda>keySet _. toArray keySet) \<rparr>)"

text \<open>
  \<^verbatim>\<open>loadData\<close> assigns \<^verbatim>\<open>this._data\<close> directly (no change is emitted for it) and then
  subscribes to and fetches every key of the imported \<^verbatim>\<open>childKeyMap\<close>. A property whose
  value is \<^verbatim>\<open>undefined\<close> reads as a missing child list everywhere in the store, so the
  snapshot keeps no entry for it.
\<close>

definition loadData :: "helpers \<Rightarrow> exportStoreData \<Rightarrow> storeData store \<Rightarrow> storeData store" where
  "loadData H imported s =
     (if version imported \<noteq> VERSION then s
      else
        let s1 = s\<lparr>data := getDefaults
                     \<lparr> childKeyMap :=
                         List.map_filter (\<lambda>(k, v). map_option (\<lambda>childKeys. (k, childKeys)) v)
                           (exChildKeyMap imported),
                       expandedKeysByRoot :=
                         mapValues (exExpandedKeysByRoot imported) (\<lambda>keys _. newSet keys),
                       rootKeys := exRootKeys imported,
                       selectedKeysByRoot :=
                         mapValues (exSelectedKeysByRoot imported) (\<lambda>keys _. newSet keys) \<rparr>\<rparr>
        in foldl (\<lambda>s nodeKey. snd (fetchChildKeys nodeKey (addSubscription H nodeKey s)))
             s1 (objectKeys (exChildKeyMap imported)))"


subsection \<open>Notions used in the statements\<close>

text \<open>
  A key is purged when the store keeps nothing about it: no child list, no subscription,
  and no root has it expanded or selected.
\<close>

definition purged :: "key \<Rightarrow> storeData store \<Rightarrow> bool" where
  "purged k s \<longleftrightarrow>
     getProp (childKeyMap (data s)) k = None \<and> getProp (subscriptionMap (data s)) k = None \<and>
     (\<forall>r. \<not> isExpanded r k s) \<and> (\<forall>r. \<not> isSelected r k s)"

text \<open>
  The container descendants of a key in the cache: the directory keys reached from it
  through the cached child lists.
\<close>

inductive containerDescendant :: "helpers \<Rightarrow> storeData store \<Rightarrow> key \<Rightarrow> key \<Rightarrow> bool"
  for H :: helpers and s :: "storeData store" where
  child: "getProp (childKeyMap (data s)) k = Some childKeys \<Longrightarrow> c \<in> set childKeys \<Longrightarrow>
            isDirKey H c \<Longrightarrow> containerDescendant H s k c"
| step: "containerDescendant H s k c \<Longrightarrow> getProp (childKeyMap (data s)) c = Some childKeys \<Longrightarrow>
            d \<in> set childKeys \<Longrightarrow> isDirKey H d \<Longrightarrow> containerDescendant H s k d"

text \<open>The second store keeps no more than the first: entries are only removed.\<close>

definition shrinks :: "storeData store \<Rightarrow> storeData store \<Rightarrow> bool" where
  "shrinks s t \<longleftrightarrow>
     (\<forall>k v. getProp (childKeyMap (data t)) k = Some v \<longrightarrow>
            getProp (childKeyMap (data s)) k = Some v) \<and>
     (\<forall>k. getProp (subscriptionMap (data s)) k = None \<longrightarrow>
          getProp (subscriptionMap (data t)) k = None) \<and>
     (\<forall>r k. isExpanded r k t \<longrightarrow> isExpanded r k s) \<and>
     (\<forall>r k. isSelected r k t \<longrightarrow> isSelected r k s)"

text \<open>
  The invariant of the purge cascade between the store it started from and the current
  one: whenever a child list has gone, the directory keys in it are purged.
\<close>

definition purgeInv :: "helpers \<Rightarrow> storeData store \<Rightarrow> storeData store \<Rightarrow> bool" where
  "purgeInv H s t \<longleftrightarrow> shrinks s t \<and>
     (\<forall>e cs c. getProp (childKeyMap (data s)) e = Some cs \<and>
               getProp (childKeyMap (data t)) e = None \<and> c \<in> set cs \<and> isDirKey H c
               \<longrightarrow> purged c t)"

text \<open>The last three steps of \<^verbatim>\<open>_purgeDirectory\<close>, on the node itself.\<close>

definition purgeSelf :: "key \<Rightarrow> storeData store \<Rightarrow> storeData store" where
  "purgeSelf k s = purgeSelectedKeys k (purgeExpandedKeys k (removeAllSubscriptions k s))"

text \<open>
  A sequence of snapshot updates each of which changes the snapshot it is applied to,
  and the store after issuing them one after the other without flushing.
\<close>

fun changing :: "('d \<Rightarrow> 'd) list \<Rightarrow> 'd \<Rightarrow> bool" where
  "changing [] d = True"
| "changing (u # us) d = (u d \<noteq> d \<and> changing us (u d))"

definition setAll :: "('d \<Rightarrow> 'd) list \<Rightarrow> 'd store \<Rightarrow> 'd store" where
  "setAll us s = foldl (\<lambda>s u. set' u False s) s us"

text \<open>The only immediate that can be pending is the one whose handle is in \<^verbatim>\<open>this._timer\<close>.\<close>

definition pendingOk :: "'d store \<Rightarrow> bool" where
  "pendingOk s \<longleftrightarrow>
     immediates s = [] \<or> (case timer s of None \<Rightarrow> False | Some h \<Rightarrow> immediates s = [h])"

text \<open>
  The tracked node was allocated before the next allocation: its number is below the
  store's counter.
\<close>

definition trackedFresh :: "storeData store \<Rightarrow> bool" where
  "trackedFresh s \<longleftrightarrow>
     (case trackedNode (data s) of None \<Rightarrow> True | Some tracked \<Rightarrow> trackedId tracked < nextId s)"

text \<open>The condition under which \<^verbatim>\<open>getChildKeys\<close> asks for a fetch.\<close>

definition uncached :: "key \<Rightarrow> storeData store \<Rightarrow> bool" where
  "uncached k s \<longleftrightarrow> getProp (childKeyMap (data s)) k = None \<or> isDirty k s"

text \<open>Every expansion set and every selection set is a list without repetition.\<close>

definition properSets :: "storeData store \<Rightarrow> bool" where
  "properSets s \<longleftrightarrow>
     list_all (\<lambda>(r, keySet). distinct keySet) (expandedKeysByRoot (data s)) \<and>
     list_all (\<lambda>(r, keySet). distinct keySet) (selectedKeysByRoot (data s))"

text \<open>The keys expanded under a root, and the children remembered for a key under a root.\<close>

definition expandedSet :: "key \<Rightarrow> storeData store \<Rightarrow> key set" where
  "expandedSet r s = set (getExpandedKeys r s)"

definition prevEntry :: "key \<Rightarrow> storeData store \<Rightarrow> key \<Rightarrow> key list option" where
  "prevEntry r s x = getProp (getPreviouslyExpanded r s) x"

text \<open>
  What collapsing under the root \<open>r\<close> leaves alone: the cache, the roots, the loading map,
  the status annotations, the collaborator logs other than disposals, and the expansion
  sets of the other roots; the expansion set of \<open>r\<close> only loses keys.
\<close>

definition collapseFrame :: "key \<Rightarrow> storeData store \<Rightarrow> storeData store \<Rightarrow> bool" where
  "collapseFrame r s t \<longleftrightarrow>
     childKeyMap (data t) = childKeyMap (data s) \<and> rootKeys (data t) = rootKeys (data s) \<and>
     isLoadingMap (data t) = isLoadingMap (data s) \<and>
     vcsStatusesByRoot (data t) = vcsStatusesByRoot (data s) \<and>
     errorLog t = errorLog s \<and> fetchCalls t = fetchCalls s \<and> watchCalls t = watchCalls s \<and>
     (\<forall>r'. r' \<noteq> r \<longrightarrow>
        getProp (expandedKeysByRoot (data t)) r' = getProp (expandedKeysByRoot (data s)) r') \<and>
     expandedSet r t \<subseteq> expandedSet r s"

text \<open>Every cached child key is longer than the key it is listed under, as path keys are.\<close>

definition properChildren :: "storeData store \<Rightarrow> bool" where
  "properChildren s \<longleftrightarrow>
     list_all (\<lambda>(k, childKeys). list_all (\<lambda>c. length k < length c) childKeys)
       (childKeyMap (data s))"

text \<open>
  A chain of cached directory children, each expanded under the root, leads from the
  first key to the second.
\<close>

inductive expandedPath :: "helpers \<Rightarrow> key \<Rightarrow> storeData store \<Rightarrow> key \<Rightarrow> key \<Rightarrow> bool"
  for H :: helpers and r :: key and s :: "storeData store" where
  here: "expandedPath H r s x x"
| down: "getProp (childKeyMap (data s)) z = Some childKeys \<Longrightarrow> c \<in> set childKeys \<Longrightarrow>
           isDirKey H c \<Longrightarrow> c \<in> expandedSet r s \<Longrightarrow> expandedPath H r s c x \<Longrightarrow>
           expandedPath H r s z x"

text \<open>
  The second store keeps for the key what the first has: its child list, its
  subscription, and its place in every expansion set and every selection set.
\<close>

definition keptAt :: "key \<Rightarrow> storeData store \<Rightarrow> storeData store \<Rightarrow> bool" where
  "keptAt y s t \<longleftrightarrow>
     getProp (childKeyMap (data t)) y = getProp (childKeyMap (data s)) y \<and>
     getSubscription y t = getSubscription y s \<and>
     (\<forall>r. isExpanded r y t = isExpanded r y s) \<and>
     (\<forall>r. isSelected r y t = isSelected r y s)"

text \<open>
  What the purge cascade leaves alone: the dirty marks, the remembered children, the
  loading map, the roots, the status annotations, the collaborator logs other than
  disposals, and the number of changes emitted; the tracked node is kept or reset.
\<close>

definition purgeUntouched :: "storeData store \<Rightarrow> storeData store \<Rightarrow> bool" where
  "purgeUntouched s t \<longleftrightarrow>
     isDirtyMap (data t) = isDirtyMap (data s) \<and>
     previouslyExpanded (data t) = previouslyExpanded (data s) \<and>
     isLoadingMap (data t) = isLoadingMap (data s) \<and>
     rootKeys (data t) = rootKeys (data s) \<and>
     vcsStatusesByRoot (data t) = vcsStatusesByRoot (data s) \<and>
     errorLog t = errorLog s \<and> fetchCalls t = fetchCalls s \<and> watchCalls t = watchCalls s \<and>
     emitted t = emitted s \<and>
     (trackedNode (data t) = trackedNode (data s) \<or> trackedNode (data t) = None)"

text \<open>
  Subscriptions are only released between the two stores, and the handles disposed in
  between are those of the keys that lost their subscription.
\<close>

definition handlesReleased :: "storeData store \<Rightarrow> storeData store \<Rightarrow> bool" where
  "handlesReleased s t \<longleftrightarrow>
     (\<forall>y h. getSubscription y t = Some h \<longrightarrow> getSubscription y s = Some h) \<and>
     set (disposed t) =
       set (disposed s) \<union> {h. \<exists>y. getSubscription y s = Some h \<and> getSubscription y t = None}"

definition purgeFrame :: "storeData store \<Rightarrow> storeData store \<Rightarrow> bool" where
  "purgeFrame s t \<longleftrightarrow> purgeUntouched s t \<and> handlesReleased s t"

text \<open>
  The keys that \<^verbatim>\<open>_setChildKeys\<close> purges when it installs a new child list for \<open>k\<close>: the
  directory keys of the old list that are not in the new one, and their container
  descendants in the cache.
\<close>

definition removedUnder :: "helpers \<Rightarrow> storeData store \<Rightarrow> key \<Rightarrow> key list \<Rightarrow> key \<Rightarrow> bool" where
  "removedUnder H s k newChildKeys y \<longleftrightarrow>
     (\<exists>oldChildKeys c. getProp (childKeyMap (data s)) k = Some oldChildKeys \<and>
        c \<in> set oldChildKeys \<and> isDirKey H c \<and> c \<notin> set newChildKeys \<and>
        (y = c \<or> containerDescendant H s c y))"

text \<open>
  The second store is the first with the new child list installed for \<open>k\<close>: the removed
  keys have lost their entries and their handles are disposed, every other key is as it
  was. The subscription, the dirty mark and the loading entry of \<open>k\<close> itself are left to
  the caller.
\<close>

definition installed ::
  "helpers \<Rightarrow> key \<Rightarrow> key list \<Rightarrow> storeData store \<Rightarrow> storeData store \<Rightarrow> bool" where
  "installed H k newChildKeys s t \<longleftrightarrow>
     (\<forall>y. getProp (childKeyMap (data t)) y =
            (if y = k then Some newChildKeys
             else if removedUnder H s k newChildKeys y then None
             else getProp (childKeyMap (data s)) y)) \<and>
     (\<forall>y. y \<noteq> k \<longrightarrow>
          getSubscription y t =
            (if removedUnder H s k newChildKeys y then None else getSubscription y s)) \<and>
     (\<forall>r y. isExpanded r y t \<longleftrightarrow> isExpanded r y s \<and> \<not> removedUnder H s k newChildKeys y) \<and>
     (\<forall>r y. isSelected r y t \<longleftrightarrow> isSelected r y s \<and> \<not> removedUnder H s k newChildKeys y) \<and>
     set (disposed t) =
       set (disposed s) \<union>
       {h. \<exists>y. removedUnder H s k newChildKeys y \<and> getSubscription y s = Some h} \<and>
     (\<forall>y. y \<noteq> k \<longrightarrow>
          getProp (isDirtyMap (data t)) y = getProp (isDirtyMap (data s)) y \<and>
          getLoading y t = getLoading y s) \<and>
     previouslyExpanded (data t) = previouslyExpanded (data s) \<and>
     rootKeys (data t) = rootKeys (data s) \<and>
     vcsStatusesByRoot (data t) = vcsStatusesByRoot (data s) \<and>
     fetchCalls t = fetchCalls s \<and> emitted t = emitted s"

text \<open>\<^verbatim>\<open>getChildKeys\<close> called for one key once for each root key of the list, in a row.\<close>

definition getChildKeysAll :: "key \<Rightarrow> key list \<Rightarrow> storeData store \<Rightarrow> storeData store" where
  "getChildKeysAll nodeKey rootKeyList s =
     foldl (\<lambda>s rootKey. snd (getChildKeys rootKey nodeKey s)) s rootKeyList"

subsection \<open>Example stores\<close>

text \<open>Helpers for path keys: a directory key ends in a slash, every directory can be watched.\<close>

definition pathHelpers :: helpers where
  "pathHelpers =
     \<lparr> isDirKey = (\<lambda>k. k \<noteq> [] \<and> last k = CHR ''/''),
       getDirectoryByKey = (\<lambda>k. True),
       onDidChangeThrows = (\<lambda>k. False) \<rparr>"

text \<open>
  One root \<^verbatim>\<open>/a/\<close>, expanded with its listing fetched, then \<^verbatim>\<open>/a/d/\<close> expanded with its
  listing fetched (a file and a directory), and the file and the directory selected.
\<close>

definition selectedFileStore :: "storeData store option" where
  "selectedFileStore =
     Option.bind (expandNode 1 ''/a/'' ''/a/'' (setRootKeys pathHelpers [''/a/''] FileTreeStore))
       (\<lambda>s1. Option.bind
          (fetchResolved pathHelpers 1 ''/a/'' [''/a/d/''] (snd (getChildKeys ''/a/'' ''/a/'' s1)))
       (\<lambda>s2. Option.bind (expandNode 1 ''/a/'' ''/a/d/'' s2)
       (\<lambda>s3. Option.bind
          (fetchResolved pathHelpers 1 ''/a/d/'' [''/a/d/f'', ''/a/d/e/'']
             (snd (getChildKeys ''/a/'' ''/a/d/'' s3)))
       (\<lambda>s4. Some (setSelectedKeys ''/a/'' [''/a/d/f'', ''/a/d/e/''] s4)))))"

text \<open>The store that these steps produce.\<close>

definition cachedTreeStore :: "storeData store" where
  "cachedTreeStore =
     \<lparr> data =
         \<lparr> childKeyMap = [(''/a/'', [''/a/d/'']), (''/a/d/'', [''/a/d/f'', ''/a/d/e/''])],
           isDirtyMap = [],
           expandedKeysByRoot = [(''/a/'', [''/a/'', ''/a/d/''])],
           trackedNode = None, previouslyExpanded = [], isLoadingMap = [],
           rootKeys = [''/a/''],
           selectedKeysByRoot = [(''/a/'', [''/a/d/f'', ''/a/d/e/''])],
           subscriptionMap = [(''/a/'', 5), (''/a/d/'', 12)],
           vcsStatusesByRoot = [] \<rparr>,
       timer = Some 15, immediates = [15], emitted = 0, nextId = 16,
       fetchCalls = [''/a/'', ''/a/d/''], errorLog = [],
       watchCalls = [''/a/'', ''/a/d/''], disposed = [] \<rparr>"

text \<open>The root \<^verbatim>\<open>/a/\<close> is registered and expanded; no listing has arrived yet.\<close>

definition expandedRootStore :: "storeData store option" where
  "expandedRootStore =
     expandNode 1 ''/a/'' ''/a/'' (setRootKeys pathHelpers [''/a/''] FileTreeStore)"

text \<open>
  Two roots, \<^verbatim>\<open>/a/\<close> and the directory \<^verbatim>\<open>/a/b/\<close> inside it. \<^verbatim>\<open>/a/b/\<close> is expanded under
  its own root and its listing (one file) has arrived; then \<^verbatim>\<open>/a/\<close> is expanded under
  \<^verbatim>\<open>/a/\<close> and its listing has arrived.
\<close>

definition nestedRootsStore :: "storeData store option" where
  "nestedRootsStore =
     Option.bind
       (expandNode 1 ''/a/b/'' ''/a/b/'' (setRootKeys pathHelpers [''/a/'', ''/a/b/''] FileTreeStore))
       (\<lambda>s1. Option.bind
          (fetchResolved pathHelpers 1 ''/a/b/'' [''/a/b/f'']
             (snd (getChildKeys ''/a/b/'' ''/a/b/'' s1)))
       (\<lambda>s2. Option.bind (expandNode 1 ''/a/'' ''/a/'' s2)
       (\<lambda>s3. fetchResolved pathHelpers 1 ''/a/'' [''/a/b/'']
                (snd (getChildKeys ''/a/'' ''/a/'' s3)))))"

text \<open>
  Two roots; \<^verbatim>\<open>/a/x\<close> is selected under \<^verbatim>\<open>/a/\<close>, \<^verbatim>\<open>/b/y\<close> is selected under \<^verbatim>\<open>/b/\<close> and
  then deselected again.
\<close>

definition deselectedStore :: "storeData store" where
  "deselectedStore =
     setSelectedKeys ''/b/'' (delete [''/b/y''] ''/b/y'')
       (setSelectedKeys ''/b/'' [''/b/y'']
          (setSelectedKeys ''/a/'' [''/a/x'']
             (setRootKeys pathHelpers [''/a/'', ''/b/''] FileTreeStore)))"

text \<open>The store that these steps produce.\<close>

definition nestedRootsValue :: "storeData store" where
  "nestedRootsValue =
     \<lparr> data =
         \<lparr> childKeyMap = [(''/a/b/'', [''/a/b/f'']), (''/a/'', [''/a/b/''])],
           isDirtyMap = [],
           expandedKeysByRoot = [(''/a/b/'', [''/a/b/'']), (''/a/'', [''/a/''])],
           trackedNode = None, previouslyExpanded = [], isLoadingMap = [],
           rootKeys = [''/a/'', ''/a/b/''], selectedKeysByRoot = [],
           subscriptionMap = [(''/a/b/'', 5), (''/a/'', 12)],
           vcsStatusesByRoot = [] \<rparr>,
       timer = Some 14, immediates = [14], emitted = 0, nextId = 15,
       fetchCalls = [''/a/b/'', ''/a/''], errorLog = [],
       watchCalls = [''/a/b/'', ''/a/''], disposed = [] \<rparr>"

text \<open>Two writes of the root list, each with a new value.\<close>

definition rootUpdates :: "(storeData \<Rightarrow> storeData) list" where
  "rootUpdates = [\<lambda>d. d\<lparr>rootKeys := [''/a/'']\<rparr>, \<lambda>d. d\<lparr>rootKeys := [''/a/'', ''/b/'']\<rparr>]"


text \<open>
  The root \<^verbatim>\<open>/a/\<close> is expanded but never listed; the directory \<^verbatim>\<open>/a/d/e/\<close> two levels
  below it is expanded under the root and its listing has arrived.
\<close>

definition unlistedParentStore :: "storeData store option" where
  "unlistedParentStore =
     Option.bind (expandNode 1 ''/a/'' ''/a/'' (setRootKeys pathHelpers [''/a/''] FileTreeStore))
       (\<lambda>s1. Option.bind (expandNode 1 ''/a/'' ''/a/d/e/'' s1)
       (\<lambda>s2. fetchResolved pathHelpers 1 ''/a/d/e/'' [''/a/d/e/g'']
                (snd (getChildKeys ''/a/'' ''/a/d/e/'' s2))))"

text \<open>The root \<^verbatim>\<open>/a/\<close> is expanded and its listing has been requested.\<close>

definition loadingRootStore :: "storeData store option" where
  "loadingRootStore =
     map_option (\<lambda>s. snd (getChildKeys ''/a/'' ''/a/'' s))
       (expandNode 1 ''/a/'' ''/a/'' (setRootKeys pathHelpers [''/a/''] FileTreeStore))"

text \<open>
  While that listing is under way the root is removed; the listing arrives; the root is
  added and expanded again.
\<close>

definition staleLoadingStore :: "storeData store option" where
  "staleLoadingStore =
     Option.bind loadingRootStore
       (\<lambda>s2. Option.bind
          (fetchResolved pathHelpers 1 ''/a/'' [''/a/x''] (setRootKeys pathHelpers [] s2))
       (\<lambda>s4. expandNode 1 ''/a/'' ''/a/'' (setRootKeys pathHelpers [''/a/''] s4)))"

text \<open>While that listing is under way the store loads its own exported data.\<close>

definition reloadedStore :: "storeData store option" where
  "reloadedStore = map_option (\<lambda>s. loadData pathHelpers (exportData s) s) loadingRootStore"

section \<open>Properties\<close>

subsection \<open>Basic facts\<close>

lemma data_set' [simp]: "data (set' f fl s) = f (data s)"
  by (simp add: set'_def Let_def)

lemma world_set' [simp]:
  "fetchCalls (set' f fl s) = fetchCalls s"
  "errorLog (set' f fl s) = errorLog s" "watchCalls (set' f fl s) = watchCalls s"
  "disposed (set' f fl s) = disposed s"
  by (simp_all add: set'_def Let_def)

lemma getProp_setProperty [simp]:
  "getProp (setProperty m k v) k' = (if k' = k then Some v else getProp m k')"
  by (simp add: getProp_def setProperty_def update_conv')

lemma getProp_deleteProperty [simp]:
  "getProp (deleteProperty m k) k' = (if k' = k then None else getProp m k')"
proof (cases "hasOwnProperty m k")
  case True
  then show ?thesis by (simp add: getProp_def deleteProperty_def delete_conv')
next
  case False
  then have "map_of m k = None"
    by (simp add: hasOwnProperty_def objectKeys_def map_of_eq_None_iff)
  with False show ?thesis by (auto simp add: getProp_def deleteProperty_def)
qed

lemma getProp_objectKeys: "k \<in> set (objectKeys m) \<longleftrightarrow> getProp m k \<noteq> None"
  by (simp add: getProp_def objectKeys_def map_of_eq_None_iff)

lemma has_delete [simp]: "has (delete ks k) k' \<longleftrightarrow> has ks k' \<and> k' \<noteq> k"
  by (auto simp: has_def delete_def)

lemma has_add [simp]: "has (add ks k) k' \<longleftrightarrow> has ks k' \<or> k' = k"
  by (auto simp: has_def add_def)

lemma has_Nil [simp]: "\<not> has [] k" by (simp add: has_def)

lemma foldl_invariant:
  "P s \<Longrightarrow> (\<And>t x. P t \<Longrightarrow> x \<in> set xs \<Longrightarrow> P (f t x)) \<Longrightarrow> P (foldl f s xs)"
  by (induction xs arbitrary: s) auto

lemma purgeExpandedKeys_data:
  "\<exists>X. data (purgeExpandedKeys k s) = (data s)\<lparr>expandedKeysByRoot := X\<rparr>"
  unfolding purgeExpandedKeys_def Let_def
  apply (rule foldl_invariant[where P="\<lambda>t. \<exists>X. data t = (data s)\<lparr>expandedKeysByRoot := X\<rparr>"])
   apply (rule exI[of _ "expandedKeysByRoot (data s)"], simp)
  apply (auto simp: setExpandedKeys_def split: option.splits)
  done

lemma purgeSelectedKeys_data:
  "\<exists>X T. data (purgeSelectedKeys k s) = (data s)\<lparr>selectedKeysByRoot := X, trackedNode := T\<rparr>"
  unfolding purgeSelectedKeys_def Let_def
proof (rule foldl_invariant[where P="\<lambda>t. \<exists>X T. data t = (data s)\<lparr>selectedKeysByRoot := X, trackedNode := T\<rparr>"])
  show "\<exists>X T. data s = (data s)\<lparr>selectedKeysByRoot := X, trackedNode := T\<rparr>"
    by (rule exI[of _ "selectedKeysByRoot (data s)"], rule exI[of _ "trackedNode (data s)"], simp)
next
  fix t :: "storeData store" and x assume "\<exists>X T. data t = (data s)\<lparr>selectedKeysByRoot := X, trackedNode := T\<rparr>"
  then obtain X T where t: "data t = (data s)\<lparr>selectedKeysByRoot := X, trackedNode := T\<rparr>" by blast
  show "\<exists>X T. data (case getProp (selectedKeysByRoot (data s)) x of None \<Rightarrow> t
           | Some selectedKeys \<Rightarrow> if has selectedKeys k
               then setSelectedKeys x (delete selectedKeys k) t else t)
         = (data s)\<lparr>selectedKeysByRoot := X, trackedNode := T\<rparr>"
  proof (cases "getProp (selectedKeysByRoot (data s)) x")
    case None then show ?thesis using t by auto
  next
    case (Some ks)
    show ?thesis
    proof (cases "has ks k")
      case False then show ?thesis using t Some by auto
    next
      case True
      have "data (setSelectedKeys x (delete ks k) t)
          = (data s)\<lparr>selectedKeysByRoot := setProperty X x (delete ks k), trackedNode := None\<rparr>"
        by (simp add: setSelectedKeys_def t)
      then show ?thesis using Some True by auto
    qed
  qed
qed

lemma purgeExpandedKeys_fold:
  "getExpandedKeys r (foldl (\<lambda>s rootKey. case getProp snap rootKey of None \<Rightarrow> s
        | Some expandedKeys \<Rightarrow> if has expandedKeys k
             then setExpandedKeys rootKey (delete expandedKeys k) s else s) t rs)
   = (case getProp snap r of Some ks \<Rightarrow> if r \<in> set rs \<and> has ks k then delete ks k else getExpandedKeys r t
      | None \<Rightarrow> getExpandedKeys r t)"
  by (induction rs arbitrary: t) (auto simp: getExpandedKeys_def setExpandedKeys_def split: option.splits)

lemma isExpanded_purgeExpandedKeys [simp]:
  "isExpanded r k' (purgeExpandedKeys k s) \<longleftrightarrow> isExpanded r k' s \<and> k' \<noteq> k"
  unfolding purgeExpandedKeys_def Let_def isExpanded_def purgeExpandedKeys_fold
  by (auto simp: getExpandedKeys_def getProp_objectKeys split: option.splits)

lemma purgeSelectedKeys_fold:
  "getSelectedKeys r (foldl (\<lambda>s rootKey. case getProp snap rootKey of None \<Rightarrow> s
        | Some selectedKeys \<Rightarrow> if has selectedKeys k
             then setSelectedKeys rootKey (delete selectedKeys k) s else s) t rs)
   = (case getProp snap r of Some ks \<Rightarrow> if r \<in> set rs \<and> has ks k then delete ks k else getSelectedKeys r t
      | None \<Rightarrow> getSelectedKeys r t)"
  by (induction rs arbitrary: t) (auto simp: getSelectedKeys_def setSelectedKeys_def split: option.splits)

lemma isSelected_purgeSelectedKeys [simp]:
  "isSelected r k' (purgeSelectedKeys k s) \<longleftrightarrow> isSelected r k' s \<and> k' \<noteq> k"
  unfolding purgeSelectedKeys_def Let_def isSelected_def purgeSelectedKeys_fold
  by (auto simp: getSelectedKeys_def getProp_objectKeys split: option.splits)

lemma properChildren_getProp:
  assumes "properChildren s" "getProp (childKeyMap (data s)) k = Some cs" "c \<in> set cs"
  shows "length k < length c"
proof -
  from assms(2) have "(k, cs) \<in> set (childKeyMap (data s))"
    by (simp add: getProp_def map_of_SomeD)
  with assms(1,3) show ?thesis
    by (auto simp: properChildren_def list_all_iff)
qed

lemma childKey_bound:
  "\<exists>L. \<forall>k cs c. getProp (cm :: key list obj) k = Some cs \<longrightarrow> c \<in> set cs \<longrightarrow> length c \<le> L"
proof -
  let ?A = "\<Union>(k, cs) \<in> set cm. length ` set cs"
  have "finite ?A" by auto
  then obtain L where L: "\<forall>x \<in> ?A. x \<le> L"
    using finite_nat_set_iff_bounded_le by blast
  have "length c \<le> L" if "getProp cm k = Some cs" "c \<in> set cs" for k cs c
  proof -
    from that(1) have "(k, cs) \<in> set cm" by (simp add: getProp_def map_of_SomeD)
    with that(2) have "length c \<in> ?A" by auto
    with L show ?thesis by blast
  qed
  then show ?thesis by blast
qed

subsection \<open>The purge cascade\<close>

lemma shrinks_refl [simp]: "shrinks s s" by (simp add: shrinks_def)

lemma shrinks_trans: "shrinks s t \<Longrightarrow> shrinks t u \<Longrightarrow> shrinks s u"
  unfolding shrinks_def by blast

lemma purged_shrinks: "purged k s \<Longrightarrow> shrinks s t \<Longrightarrow> purged k t"
  unfolding purged_def shrinks_def by (metis option.exhaust)

lemma purgeInv_refl [simp]: "purgeInv H s s" by (auto simp add: purgeInv_def)

lemma purgeInv_trans:
  assumes "purgeInv H s t" "purgeInv H t u" shows "purgeInv H s u"
proof -
  have su: "shrinks s u" using assms shrinks_trans unfolding purgeInv_def by blast
  { fix e cs c
    assume e: "getProp (childKeyMap (data s)) e = Some cs" "getProp (childKeyMap (data u)) e = None"
       and c: "c \<in> set cs" "isDirKey H c"
    have "purged c u"
    proof (cases "getProp (childKeyMap (data t)) e")
      case None
      then have "purged c t" using assms(1) e c unfolding purgeInv_def by blast
      then show ?thesis using assms(2) purged_shrinks unfolding purgeInv_def by blast
    next
      case (Some cs')
      then have "cs' = cs" using assms(1) e unfolding purgeInv_def shrinks_def by fastforce
      then show ?thesis using assms(2) Some e c unfolding purgeInv_def by blast
    qed }
  then show ?thesis using su unfolding purgeInv_def by blast
qed

lemma removeAllSubscriptions_data:
  "data (removeAllSubscriptions k s)
     = (data s)\<lparr>subscriptionMap := deleteProperty (subscriptionMap (data s)) k\<rparr>"
  by (auto simp: removeAllSubscriptions_def deleteProperty_def hasOwnProperty_def getProp_objectKeys
      split: option.splits)

lemma purgeSelf_childKeyMap [simp]: "childKeyMap (data (purgeSelf k s)) = childKeyMap (data s)"
proof -
  obtain X T where "data (purgeSelf k s)
      = (data (purgeExpandedKeys k (removeAllSubscriptions k s)))\<lparr>selectedKeysByRoot := X, trackedNode := T\<rparr>"
    unfolding purgeSelf_def using purgeSelectedKeys_data by blast
  moreover obtain Y where "data (purgeExpandedKeys k (removeAllSubscriptions k s))
      = (data (removeAllSubscriptions k s))\<lparr>expandedKeysByRoot := Y\<rparr>"
    using purgeExpandedKeys_data by blast
  ultimately show ?thesis by (simp add: removeAllSubscriptions_data)
qed

lemma purgeSelf_subscriptionMap [simp]:
  "subscriptionMap (data (purgeSelf k s)) = deleteProperty (subscriptionMap (data s)) k"
proof -
  obtain X T where "data (purgeSelf k s)
      = (data (purgeExpandedKeys k (removeAllSubscriptions k s)))\<lparr>selectedKeysByRoot := X, trackedNode := T\<rparr>"
    unfolding purgeSelf_def using purgeSelectedKeys_data by blast
  moreover obtain Y where "data (purgeExpandedKeys k (removeAllSubscriptions k s))
      = (data (removeAllSubscriptions k s))\<lparr>expandedKeysByRoot := Y\<rparr>"
    using purgeExpandedKeys_data by blast
  ultimately show ?thesis by (simp add: removeAllSubscriptions_data)
qed

lemma isExpanded_cong: "expandedKeysByRoot (data s) = expandedKeysByRoot (data t) \<Longrightarrow> isExpanded r k s = isExpanded r k t"
  by (simp add: isExpanded_def getExpandedKeys_def)

lemma isSelected_cong: "selectedKeysByRoot (data s) = selectedKeysByRoot (data t) \<Longrightarrow> isSelected r k s = isSelected r k t"
  by (simp add: isSelected_def getSelectedKeys_def)

lemma isExpanded_purgeSelf [simp]: "isExpanded r k' (purgeSelf k s) \<longleftrightarrow> isExpanded r k' s \<and> k' \<noteq> k"
proof -
  obtain X T where "data (purgeSelf k s)
      = (data (purgeExpandedKeys k (removeAllSubscriptions k s)))\<lparr>selectedKeysByRoot := X, trackedNode := T\<rparr>"
    unfolding purgeSelf_def using purgeSelectedKeys_data by blast
  then have "isExpanded r k' (purgeSelf k s) = isExpanded r k' (purgeExpandedKeys k (removeAllSubscriptions k s))"
    by (intro isExpanded_cong) simp
  also have "\<dots> \<longleftrightarrow> isExpanded r k' (removeAllSubscriptions k s) \<and> k' \<noteq> k" by simp
  also have "isExpanded r k' (removeAllSubscriptions k s) = isExpanded r k' s"
    by (intro isExpanded_cong) (simp add: removeAllSubscriptions_data)
  finally show ?thesis .
qed

lemma isSelected_purgeSelf [simp]: "isSelected r k' (purgeSelf k s) \<longleftrightarrow> isSelected r k' s \<and> k' \<noteq> k"
proof -
  obtain Y where "data (purgeExpandedKeys k (removeAllSubscriptions k s))
      = (data (removeAllSubscriptions k s))\<lparr>expandedKeysByRoot := Y\<rparr>"
    using purgeExpandedKeys_data by blast
  then have "isSelected r k' (purgeExpandedKeys k (removeAllSubscriptions k s)) = isSelected r k' s"
    by (intro isSelected_cong) (simp add: removeAllSubscriptions_data)
  then show ?thesis by (simp add: purgeSelf_def)
qed

lemma shrinks_purgeSelf: "shrinks s (purgeSelf k s)"
  by (auto simp: shrinks_def split: if_splits)

lemma purgeDirectory_Suc:
  "purgeDirectory H (Suc n) k s =
     (case getProp (childKeyMap (data s)) k of
        None \<Rightarrow> Some (purgeSelf k s)
      | Some childKeys \<Rightarrow>
          (case purgeChildKeys H n childKeys s of
             None \<Rightarrow> None
           | Some s1 \<Rightarrow> Some (purgeSelf k
                   (set' (\<lambda>d. d\<lparr>childKeyMap := deleteProperty (childKeyMap d) k\<rparr>) False s1))))"
  by (simp add: purgeSelf_def split: option.splits)

lemma purge_invariant:
  "(purgeDirectory H n k s = Some s' \<longrightarrow> purgeInv H s s' \<and> purged k s')"
  "(purgeChildKeys H n cs s = Some s' \<longrightarrow> purgeInv H s s' \<and> (\<forall>c \<in> set cs. isDirKey H c \<longrightarrow> purged c s'))"
proof (induction H n k s and H n cs s arbitrary: s' and s' rule: purgeDirectory_purgeChildKeys.induct)
  case (1 H nodeKey s)
  show ?case by simp
next
  case (2 H n nodeKey s)
  show ?case
  proof
    assume run: "purgeDirectory H (Suc n) nodeKey s = Some s'"
    show "purgeInv H s s' \<and> purged nodeKey s'"
    proof (cases "getProp (childKeyMap (data s)) nodeKey")
      case None
      with run have s': "s' = purgeSelf nodeKey s"
        by (simp add: purgeDirectory_Suc del: purgeDirectory.simps)
      have "purgeInv H s s'" unfolding purgeInv_def s'
        using shrinks_purgeSelf by auto
      moreover have "purged nodeKey s'" unfolding purged_def s' using None by simp
      ultimately show ?thesis by simp
    next
      case (Some childKeys)
      with run obtain s1 where s1: "purgeChildKeys H n childKeys s = Some s1"
        and s': "s' = purgeSelf nodeKey
                   (set' (\<lambda>d. d\<lparr>childKeyMap := deleteProperty (childKeyMap d) nodeKey\<rparr>) False s1)"
        by (auto simp: purgeDirectory_Suc simp del: purgeDirectory.simps split: option.splits)
      from "2.IH"[OF Some] s1 have inv1: "purgeInv H s s1"
        and ch1: "\<forall>c \<in> set childKeys. isDirKey H c \<longrightarrow> purged c s1" by auto
      let ?t = "set' (\<lambda>d. d\<lparr>childKeyMap := deleteProperty (childKeyMap d) nodeKey\<rparr>) False s1"
      have "shrinks s1 ?t"
        by (auto simp: shrinks_def isExpanded_def getExpandedKeys_def isSelected_def
            getSelectedKeys_def split: if_splits)
      then have sh: "shrinks s1 s'" unfolding s'
        using shrinks_purgeSelf shrinks_trans by blast
      have cm: "\<And>k. getProp (childKeyMap (data s')) k = (if k = nodeKey then None else getProp (childKeyMap (data s1)) k)"
        unfolding s' by simp
      have "purgeInv H s1 s'" unfolding purgeInv_def
      proof (intro conjI allI impI)
        show "shrinks s1 s'" by (rule sh)
      next
        fix e cs c
        assume a: "getProp (childKeyMap (data s1)) e = Some cs \<and> getProp (childKeyMap (data s')) e = None
                   \<and> c \<in> set cs \<and> isDirKey H c"
        then have "e = nodeKey" using cm[of e] by (auto split: if_splits)
        moreover have "getProp (childKeyMap (data s1)) nodeKey = None \<or> getProp (childKeyMap (data s1)) nodeKey = Some childKeys"
          using inv1 Some unfolding purgeInv_def shrinks_def by (metis option.exhaust)
        ultimately have "cs = childKeys" using a by auto
        then have "purged c s1" using ch1 a by blast
        then show "purged c s'" using sh purged_shrinks by blast
      qed
      then have "purgeInv H s s'" using inv1 purgeInv_trans by blast
      moreover have "purged nodeKey s'" unfolding purged_def s' by simp
      ultimately show ?thesis by simp
    qed
  qed
next
  case (3 H n s)
  show ?case by simp
next
  case (4 H n childKey childKeys s)
  show ?case
  proof
    assume run: "purgeChildKeys H n (childKey # childKeys) s = Some s'"
    show "purgeInv H s s' \<and> (\<forall>c\<in>set (childKey # childKeys). isDirKey H c \<longrightarrow> purged c s')"
    proof (cases "isDirKey H childKey")
      case False
      with run have "purgeChildKeys H n childKeys s = Some s'" by simp
      with "4.IH"(3)[OF False] False show ?thesis by auto
    next
      case True
      with run obtain s1 where s1: "purgeDirectory H n childKey s = Some s1"
        and r2: "purgeChildKeys H n childKeys s1 = Some s'"
        by (auto split: option.splits)
      from "4.IH"(1)[OF True] s1 have i1: "purgeInv H s s1" "purged childKey s1" by auto
      from "4.IH"(2)[OF True s1] r2 have i2: "purgeInv H s1 s'"
        "\<forall>c\<in>set childKeys. isDirKey H c \<longrightarrow> purged c s'" by auto
      have "purged childKey s'" using i1(2) i2(1) purged_shrinks unfolding purgeInv_def by blast
      then show ?thesis using i1 i2 purgeInv_trans by auto
    qed
  qed
qed

lemma purged_descendants:
  assumes "containerDescendant H s k d" "purgeInv H s s'" "purged k s'"
  shows "purged d s'"
  using assms
proof (induction rule: containerDescendant.induct)
  case (child k childKeys c)
  then show ?case unfolding purgeInv_def purged_def by blast
next
  case (step k c childKeys d)
  then have "purged c s'" by blast
  then have "getProp (childKeyMap (data s')) c = None" by (simp add: purged_def)
  with step show ?case unfolding purgeInv_def by blast
qed

lemma selectedFileStore_eq: "selectedFileStore = Some cachedTreeStore"
  by code_simp

lemma emitted_set': "emitted (set' f False s) = emitted s"
  by (simp add: set'_def Let_def)

lemma purgeUntouched_trans: "purgeUntouched s t \<Longrightarrow> purgeUntouched t u \<Longrightarrow> purgeUntouched s u"
  by (auto simp: purgeUntouched_def)

lemma handlesReleased_trans:
  assumes "handlesReleased s t" "handlesReleased t u" shows "handlesReleased s u"
proof -
  have sub1: "\<And>y h. getSubscription y t = Some h \<Longrightarrow> getSubscription y s = Some h"
    and sub2: "\<And>y h. getSubscription y u = Some h \<Longrightarrow> getSubscription y t = Some h"
    and d1: "set (disposed t) =
       set (disposed s) \<union> {h. \<exists>y. getSubscription y s = Some h \<and> getSubscription y t = None}"
    and d2: "set (disposed u) =
       set (disposed t) \<union> {h. \<exists>y. getSubscription y t = Some h \<and> getSubscription y u = None}"
    using assms by (simp_all add: handlesReleased_def)
  have disp: "set (disposed u) =
       set (disposed s) \<union> {h. \<exists>y. getSubscription y s = Some h \<and> getSubscription y u = None}"
  proof (intro set_eqI iffI)
    fix h assume "h \<in> set (disposed u)"
    then consider "h \<in> set (disposed s)"
      | y where "getSubscription y s = Some h" "getSubscription y t = None"
      | y where "getSubscription y t = Some h" "getSubscription y u = None"
      using d1 d2 by auto
    then show "h \<in> set (disposed s) \<union> {h. \<exists>y. getSubscription y s = Some h \<and> getSubscription y u = None}"
    proof cases
      case 1 then show ?thesis by simp
    next
      case 2
      then have "getSubscription y u = None" using sub2 by (cases "getSubscription y u") auto
      then show ?thesis using 2 by auto
    next
      case 3 then show ?thesis using sub1 by auto
    qed
  next
    fix h assume "h \<in> set (disposed s) \<union> {h. \<exists>y. getSubscription y s = Some h \<and> getSubscription y u = None}"
    then consider "h \<in> set (disposed s)"
      | y where "getSubscription y s = Some h" "getSubscription y u = None" by auto
    then show "h \<in> set (disposed u)"
    proof cases
      case 1 then show ?thesis using d1 d2 by simp
    next
      case 2
      show ?thesis
      proof (cases "getSubscription y t")
        case None then show ?thesis using 2 d1 d2 by auto
      next
        case (Some v)
        then have "v = h" using sub1 2 by fastforce
        then show ?thesis using Some 2 d2 by auto
      qed
    qed
  qed
  show ?thesis unfolding handlesReleased_def
  proof (intro conjI)
    show "\<forall>y h. getSubscription y u = Some h \<longrightarrow> getSubscription y s = Some h"
      using sub1 sub2 by blast
    show "set (disposed u) =
       set (disposed s) \<union> {h. \<exists>y. getSubscription y s = Some h \<and> getSubscription y u = None}"
      by (fact disp)
  qed
qed

lemma purgeFrame_refl [simp]: "purgeFrame s s"
  by (auto simp: purgeFrame_def purgeUntouched_def handlesReleased_def)

lemma purgeFrame_trans: "purgeFrame s t \<Longrightarrow> purgeFrame t u \<Longrightarrow> purgeFrame s u"
  unfolding purgeFrame_def using purgeUntouched_trans handlesReleased_trans by blast

lemma purgeExpandedKeys_world:
  "errorLog (purgeExpandedKeys k s) = errorLog s \<and> fetchCalls (purgeExpandedKeys k s) = fetchCalls s \<and>
   watchCalls (purgeExpandedKeys k s) = watchCalls s \<and> disposed (purgeExpandedKeys k s) = disposed s \<and>
   emitted (purgeExpandedKeys k s) = emitted s"
  unfolding purgeExpandedKeys_def Let_def
  by (rule foldl_invariant[where P = "\<lambda>t. errorLog t = errorLog s \<and> fetchCalls t = fetchCalls s \<and>
        watchCalls t = watchCalls s \<and> disposed t = disposed s \<and> emitted t = emitted s"])
     (auto simp: setExpandedKeys_def emitted_set' split: option.splits)

lemma purgeSelectedKeys_world:
  "errorLog (purgeSelectedKeys k s) = errorLog s \<and> fetchCalls (purgeSelectedKeys k s) = fetchCalls s \<and>
   watchCalls (purgeSelectedKeys k s) = watchCalls s \<and> disposed (purgeSelectedKeys k s) = disposed s \<and>
   emitted (purgeSelectedKeys k s) = emitted s"
  unfolding purgeSelectedKeys_def Let_def
  by (rule foldl_invariant[where P = "\<lambda>t. errorLog t = errorLog s \<and> fetchCalls t = fetchCalls s \<and>
        watchCalls t = watchCalls s \<and> disposed t = disposed s \<and> emitted t = emitted s"])
     (auto simp: setSelectedKeys_def emitted_set' split: option.splits)

lemma removeAllSubscriptions_world:
  "errorLog (removeAllSubscriptions k s) = errorLog s" "fetchCalls (removeAllSubscriptions k s) = fetchCalls s"
  "watchCalls (removeAllSubscriptions k s) = watchCalls s" "emitted (removeAllSubscriptions k s) = emitted s"
  "disposed (removeAllSubscriptions k s) =
     (case getSubscription k s of None \<Rightarrow> disposed s | Some h \<Rightarrow> disposed s @ [h])"
  by (simp_all add: removeAllSubscriptions_def getSubscription_def emitted_set' split: option.splits)

lemma purgeSelf_data:
  "\<exists>E S T. data (purgeSelf k s) =
     (data s)\<lparr>subscriptionMap := deleteProperty (subscriptionMap (data s)) k,
              expandedKeysByRoot := E, selectedKeysByRoot := S, trackedNode := T\<rparr>"
proof -
  obtain X T where "data (purgeSelf k s)
      = (data (purgeExpandedKeys k (removeAllSubscriptions k s)))\<lparr>selectedKeysByRoot := X, trackedNode := T\<rparr>"
    unfolding purgeSelf_def using purgeSelectedKeys_data by blast
  moreover obtain Y where "data (purgeExpandedKeys k (removeAllSubscriptions k s))
      = (data (removeAllSubscriptions k s))\<lparr>expandedKeysByRoot := Y\<rparr>"
    using purgeExpandedKeys_data by blast
  ultimately have "data (purgeSelf k s) =
     (data s)\<lparr>subscriptionMap := deleteProperty (subscriptionMap (data s)) k,
              expandedKeysByRoot := Y, selectedKeysByRoot := X, trackedNode := T\<rparr>"
    by (simp add: removeAllSubscriptions_data)
  then show ?thesis by blast
qed

lemma purgeSelf_tracked:
  "trackedNode (data (purgeSelf k s)) = trackedNode (data s) \<or> trackedNode (data (purgeSelf k s)) = None"
proof -
  obtain Y where y: "data (purgeExpandedKeys k (removeAllSubscriptions k s))
      = (data (removeAllSubscriptions k s))\<lparr>expandedKeysByRoot := Y\<rparr>"
    using purgeExpandedKeys_data by blast
  let ?t = "purgeExpandedKeys k (removeAllSubscriptions k s)"
  have t: "trackedNode (data ?t) = trackedNode (data s)"
    by (simp add: y removeAllSubscriptions_data)
  have "trackedNode (data (purgeSelectedKeys k ?t)) = trackedNode (data ?t) \<or>
        trackedNode (data (purgeSelectedKeys k ?t)) = None"
    unfolding purgeSelectedKeys_def Let_def
    by (rule foldl_invariant[where P = "\<lambda>u. trackedNode (data u) = trackedNode (data ?t) \<or>
          trackedNode (data u) = None"])
       (auto simp: setSelectedKeys_def split: option.splits)
  then show ?thesis unfolding purgeSelf_def using t by simp
qed

lemma purgeSelf_frame: "purgeFrame s (purgeSelf k s)"
proof -
  obtain E S T where d: "data (purgeSelf k s) =
     (data s)\<lparr>subscriptionMap := deleteProperty (subscriptionMap (data s)) k,
              expandedKeysByRoot := E, selectedKeysByRoot := S, trackedNode := T\<rparr>"
    using purgeSelf_data by blast
  have w: "errorLog (purgeSelf k s) = errorLog s" "fetchCalls (purgeSelf k s) = fetchCalls s"
    "watchCalls (purgeSelf k s) = watchCalls s" "emitted (purgeSelf k s) = emitted s"
    "disposed (purgeSelf k s) =
       (case getSubscription k s of None \<Rightarrow> disposed s | Some h \<Rightarrow> disposed s @ [h])"
    by (simp_all add: purgeSelf_def purgeSelectedKeys_world purgeExpandedKeys_world
        removeAllSubscriptions_world)
  have sub: "getSubscription y (purgeSelf k s) = (if y = k then None else getSubscription y s)" for y
    by (simp add: getSubscription_def d)
  have "set (disposed (purgeSelf k s)) =
       set (disposed s) \<union> {h. \<exists>y. getSubscription y s = Some h \<and> getSubscription y (purgeSelf k s) = None}"
    by (cases "getSubscription k s") (auto simp: w(5) sub)
  then have "handlesReleased s (purgeSelf k s)"
    by (simp add: handlesReleased_def sub)
  moreover have "isDirtyMap (data (purgeSelf k s)) = isDirtyMap (data s)"
    "previouslyExpanded (data (purgeSelf k s)) = previouslyExpanded (data s)"
    "isLoadingMap (data (purgeSelf k s)) = isLoadingMap (data s)"
    "rootKeys (data (purgeSelf k s)) = rootKeys (data s)"
    "vcsStatusesByRoot (data (purgeSelf k s)) = vcsStatusesByRoot (data s)"
    by (simp_all add: d)
  then have "purgeUntouched s (purgeSelf k s)"
    using w(1-4) purgeSelf_tracked[of k s] by (simp add: purgeUntouched_def)
  ultimately show ?thesis by (simp add: purgeFrame_def)
qed

lemma deleteChildKeys_frame:
  "purgeFrame s (set' (\<lambda>d. d\<lparr>childKeyMap := deleteProperty (childKeyMap d) k\<rparr>) False s)"
  by (auto simp: purgeFrame_def purgeUntouched_def handlesReleased_def getSubscription_def emitted_set')

lemma purge_frame:
  "purgeDirectory H n k s = Some s' \<longrightarrow> purgeFrame s s'"
  "purgeChildKeys H n cs s = Some s' \<longrightarrow> purgeFrame s s'"
proof (induction H n k s and H n cs s arbitrary: s' and s' rule: purgeDirectory_purgeChildKeys.induct)
  case (1 H nodeKey s)
  show ?case by simp
next
  case (2 H n nodeKey s)
  show ?case
  proof
    assume run: "purgeDirectory H (Suc n) nodeKey s = Some s'"
    show "purgeFrame s s'"
    proof (cases "getProp (childKeyMap (data s)) nodeKey")
      case None
      with run have "s' = purgeSelf nodeKey s"
        by (simp add: purgeDirectory_Suc del: purgeDirectory.simps)
      then show ?thesis using purgeSelf_frame by simp
    next
      case (Some childKeys)
      with run obtain s1 where s1: "purgeChildKeys H n childKeys s = Some s1"
        and s': "s' = purgeSelf nodeKey
                   (set' (\<lambda>d. d\<lparr>childKeyMap := deleteProperty (childKeyMap d) nodeKey\<rparr>) False s1)"
        by (auto simp: purgeDirectory_Suc simp del: purgeDirectory.simps split: option.splits)
      have "purgeFrame s s1" using "2.IH"[OF Some] s1 by blast
      then show ?thesis unfolding s'
        using deleteChildKeys_frame purgeSelf_frame purgeFrame_trans by blast
    qed
  qed
next
  case (3 H n s)
  show ?case by simp
next
  case (4 H n childKey childKeys s)
  show ?case
  proof
    assume run: "purgeChildKeys H n (childKey # childKeys) s = Some s'"
    show "purgeFrame s s'"
    proof (cases "isDirKey H childKey")
      case False
      with run "4.IH"(3)[OF False] show ?thesis by simp
    next
      case True
      with run obtain s1 where s1: "purgeDirectory H n childKey s = Some s1"
        and r2: "purgeChildKeys H n childKeys s1 = Some s'"
        by (auto split: option.splits)
      have "purgeFrame s s1" using "4.IH"(1)[OF True] s1 by blast
      moreover have "purgeFrame s1 s'" using "4.IH"(2)[OF True s1] r2 by blast
      ultimately show ?thesis using purgeFrame_trans by blast
    qed
  qed
qed

lemma containerDescendant_mono:
  assumes "containerDescendant H t k d"
    "\<And>x v. getProp (childKeyMap (data t)) x = Some v \<Longrightarrow> getProp (childKeyMap (data s)) x = Some v"
  shows "containerDescendant H s k d"
  using assms
proof (induction rule: containerDescendant.induct)
  case (child k childKeys c)
  then show ?case by (intro containerDescendant.child[of s k childKeys c]) auto
next
  case (step k c childKeys d)
  then show ?case by (intro containerDescendant.step[of H s k c childKeys d]) auto
qed

lemma containerDescendant_front:
  assumes "containerDescendant H s c d" "getProp (childKeyMap (data s)) k = Some childKeys"
    "c \<in> set childKeys" "isDirKey H c"
  shows "containerDescendant H s k d"
  using assms
proof (induction rule: containerDescendant.induct)
  case (child c cs d)
  have "containerDescendant H s k c" using child.prems by (intro containerDescendant.child) auto
  then show ?case using child.hyps by (intro containerDescendant.step[of H s k c cs d]) auto
next
  case (step c c' cs d)
  then have "containerDescendant H s k c'" by blast
  then show ?case using step.hyps by (intro containerDescendant.step[of H s k c' cs d]) auto
qed

lemma containerDescendant_isDirKey: "containerDescendant H s k d \<Longrightarrow> isDirKey H d"
  by (induction rule: containerDescendant.induct) auto

lemma keptAt_refl [simp]: "keptAt y s s" by (simp add: keptAt_def)

lemma keptAt_trans: "keptAt y s t \<Longrightarrow> keptAt y t u \<Longrightarrow> keptAt y s u"
  by (simp add: keptAt_def)

lemma keptAt_purgeSelf: "y \<noteq> k \<Longrightarrow> keptAt y s (purgeSelf k s)"
  by (simp add: keptAt_def getSubscription_def)

lemma keptAt_deleteChildKeys:
  "y \<noteq> k \<Longrightarrow> keptAt y s (set' (\<lambda>d. d\<lparr>childKeyMap := deleteProperty (childKeyMap d) k\<rparr>) False s)"
  by (simp add: keptAt_def getSubscription_def isExpanded_def getExpandedKeys_def
      isSelected_def getSelectedKeys_def)

lemma purge_keeps:
  "purgeDirectory H n k s = Some s' \<longrightarrow>
     (\<forall>y. y \<noteq> k \<and> \<not> containerDescendant H s k y \<longrightarrow> keptAt y s s')"
  "purgeChildKeys H n cs s = Some s' \<longrightarrow>
     (\<forall>y. \<not> (\<exists>c \<in> set cs. isDirKey H c \<and> (y = c \<or> containerDescendant H s c y)) \<longrightarrow> keptAt y s s')"
proof (induction H n k s and H n cs s arbitrary: s' and s' rule: purgeDirectory_purgeChildKeys.induct)
  case (1 H nodeKey s)
  show ?case by simp
next
  case (2 H n nodeKey s)
  show ?case
  proof (intro impI allI)
    fix y
    assume run: "purgeDirectory H (Suc n) nodeKey s = Some s'"
      and y: "y \<noteq> nodeKey \<and> \<not> containerDescendant H s nodeKey y"
    show "keptAt y s s'"
    proof (cases "getProp (childKeyMap (data s)) nodeKey")
      case None
      with run have "s' = purgeSelf nodeKey s"
        by (simp add: purgeDirectory_Suc del: purgeDirectory.simps)
      then show ?thesis using y keptAt_purgeSelf by simp
    next
      case (Some childKeys)
      with run obtain s1 where s1: "purgeChildKeys H n childKeys s = Some s1"
        and s': "s' = purgeSelf nodeKey
                   (set' (\<lambda>d. d\<lparr>childKeyMap := deleteProperty (childKeyMap d) nodeKey\<rparr>) False s1)"
        by (auto simp: purgeDirectory_Suc simp del: purgeDirectory.simps split: option.splits)
      have "\<not> (\<exists>c \<in> set childKeys. isDirKey H c \<and> (y = c \<or> containerDescendant H s c y))"
      proof
        assume "\<exists>c \<in> set childKeys. isDirKey H c \<and> (y = c \<or> containerDescendant H s c y)"
        then obtain c where c: "c \<in> set childKeys" "isDirKey H c" "y = c \<or> containerDescendant H s c y"
          by blast
        have "containerDescendant H s nodeKey c"
          using Some c(1,2) by (rule containerDescendant.child)
        moreover have "containerDescendant H s c y \<Longrightarrow> containerDescendant H s nodeKey y"
          using containerDescendant_front[OF _ Some c(1,2)] by blast
        ultimately have "containerDescendant H s nodeKey y" using c(3) by blast
        then show False using y by simp
      qed
      then have k1: "keptAt y s s1" using "2.IH"[OF Some] s1 by blast
      have k2: "keptAt y s1 (set' (\<lambda>d. d\<lparr>childKeyMap := deleteProperty (childKeyMap d) nodeKey\<rparr>) False s1)"
        using y keptAt_deleteChildKeys by blast
      have k3: "keptAt y (set' (\<lambda>d. d\<lparr>childKeyMap := deleteProperty (childKeyMap d) nodeKey\<rparr>) False s1) s'"
        unfolding s' using y keptAt_purgeSelf by blast
      show ?thesis using keptAt_trans[OF k1 keptAt_trans[OF k2 k3]] .
    qed
  qed
next
  case (3 H n s)
  show ?case by simp
next
  case (4 H n childKey childKeys s)
  show ?case
  proof (intro impI allI)
    fix y
    assume run: "purgeChildKeys H n (childKey # childKeys) s = Some s'"
      and y: "\<not> (\<exists>c \<in> set (childKey # childKeys). isDirKey H c \<and> (y = c \<or> containerDescendant H s c y))"
    have y1: "isDirKey H childKey \<Longrightarrow> y \<noteq> childKey \<and> \<not> containerDescendant H s childKey y"
      using y by simp
    have y2: "\<And>c. c \<in> set childKeys \<Longrightarrow> isDirKey H c \<Longrightarrow> y \<noteq> c \<and> \<not> containerDescendant H s c y"
      using y by simp
    show "keptAt y s s'"
    proof (cases "isDirKey H childKey")
      case False
      with run have r: "purgeChildKeys H n childKeys s = Some s'" by simp
      have "\<not> (\<exists>c \<in> set childKeys. isDirKey H c \<and> (y = c \<or> containerDescendant H s c y))"
        using y2 by blast
      then show ?thesis using "4.IH"(3)[OF False] r by blast
    next
      case True
      with run obtain s1 where s1: "purgeDirectory H n childKey s = Some s1"
        and r2: "purgeChildKeys H n childKeys s1 = Some s'"
        by (auto split: option.splits)
      have k1: "keptAt y s s1" using "4.IH"(1)[OF True] s1 y1[OF True] by blast
      have "purgeInv H s s1" using purge_invariant(1) s1 by blast
      then have sh: "\<And>x v. getProp (childKeyMap (data s1)) x = Some v
                        \<Longrightarrow> getProp (childKeyMap (data s)) x = Some v"
        unfolding purgeInv_def shrinks_def by blast
      have mono: "containerDescendant H s1 c y \<Longrightarrow> containerDescendant H s c y" for c
        using containerDescendant_mono[of H s1 c y s] sh by blast
      have "\<not> (\<exists>c \<in> set childKeys. isDirKey H c \<and> (y = c \<or> containerDescendant H s1 c y))"
        using y2 mono by blast
      then have k2: "keptAt y s1 s'" using "4.IH"(2)[OF True s1] r2 by blast
      show ?thesis using keptAt_trans[OF k1 k2] .
    qed
  qed
qed

lemma purge_enough_fuel:
  assumes proper: "\<And>k cs c. getProp cm0 k = Some cs \<Longrightarrow> c \<in> set cs
                      \<Longrightarrow> length k < length c \<and> length c \<le> L"
  shows "(\<forall>x v. getProp (childKeyMap (data s)) x = Some v \<longrightarrow> getProp cm0 x = Some v) \<longrightarrow>
           L - length k < n \<longrightarrow> purgeDirectory H n k s \<noteq> None"
    and "(\<forall>x v. getProp (childKeyMap (data s)) x = Some v \<longrightarrow> getProp cm0 x = Some v) \<longrightarrow>
           (\<forall>c \<in> set cs. L - length c < n) \<longrightarrow> purgeChildKeys H n cs s \<noteq> None"
proof (induction H n k s and H n cs s rule: purgeDirectory_purgeChildKeys.induct)
  case (1 H nodeKey s)
  show ?case by simp
next
  case (2 H n nodeKey s)
  show ?case
  proof (intro impI)
    assume cm: "\<forall>x v. getProp (childKeyMap (data s)) x = Some v \<longrightarrow> getProp cm0 x = Some v"
      and n: "L - length nodeKey < Suc n"
    show "purgeDirectory H (Suc n) nodeKey s \<noteq> None"
    proof (cases "getProp (childKeyMap (data s)) nodeKey")
      case None
      then show ?thesis by simp
    next
      case (Some childKeys)
      have "\<forall>c \<in> set childKeys. L - length c < n"
      proof
        fix c assume "c \<in> set childKeys"
        then have "length nodeKey < length c \<and> length c \<le> L" using proper Some cm by blast
        then show "L - length c < n" using n by linarith
      qed
      then have "purgeChildKeys H n childKeys s \<noteq> None" using "2.IH"[OF Some] cm by blast
      then show ?thesis using Some by (auto split: option.splits)
    qed
  qed
next
  case (3 H n s)
  show ?case by simp
next
  case (4 H n childKey childKeys s)
  show ?case
  proof (intro impI)
    assume cm: "\<forall>x v. getProp (childKeyMap (data s)) x = Some v \<longrightarrow> getProp cm0 x = Some v"
      and n: "\<forall>c \<in> set (childKey # childKeys). L - length c < n"
    show "purgeChildKeys H n (childKey # childKeys) s \<noteq> None"
    proof (cases "isDirKey H childKey")
      case False
      then show ?thesis using "4.IH"(3)[OF False] cm n by simp
    next
      case True
      have "purgeDirectory H n childKey s \<noteq> None" using "4.IH"(1)[OF True] cm n by simp
      then obtain s1 where s1: "purgeDirectory H n childKey s = Some s1" by auto
      have "shrinks s s1" using purge_invariant(1) s1 unfolding purgeInv_def by blast
      then have "\<forall>x v. getProp (childKeyMap (data s1)) x = Some v \<longrightarrow> getProp cm0 x = Some v"
        using cm unfolding shrinks_def by blast
      then have "purgeChildKeys H n childKeys s1 \<noteq> None" using "4.IH"(2)[OF True s1] n by simp
      then show ?thesis using True s1 by simp
    qed
  qed
qed

lemma purge_total:
  assumes "properChildren s"
  shows "\<exists>n. \<forall>k childKeys. purgeDirectory H n k s \<noteq> None \<and> purgeChildKeys H n childKeys s \<noteq> None"
proof -
  obtain L where L: "\<forall>k cs c. getProp (childKeyMap (data s)) k = Some cs \<longrightarrow> c \<in> set cs \<longrightarrow> length c \<le> L"
    using childKey_bound by blast
  have p: "\<And>k cs c. getProp (childKeyMap (data s)) k = Some cs \<Longrightarrow> c \<in> set cs
                      \<Longrightarrow> length k < length c \<and> length c \<le> L"
    using properChildren_getProp[OF assms] L by blast
  have "purgeDirectory H (Suc L) k s \<noteq> None" for k
    using purge_enough_fuel(1)[where ?cm0.0 = "childKeyMap (data s)" and L = L and s = s and k = k
        and n = "Suc L" and H = H] p by (simp add: less_Suc_eq_le)
  moreover have "purgeChildKeys H (Suc L) childKeys s \<noteq> None" for childKeys
    using purge_enough_fuel(2)[where ?cm0.0 = "childKeyMap (data s)" and L = L and s = s
        and cs = childKeys and n = "Suc L" and H = H] p by (simp add: less_Suc_eq_le)
  ultimately show ?thesis by blast
qed

text \<open>
  Claim C1, as amended. \<^verbatim>\<open>purgeDirectory(k)\<close> returns on every cache whose child keys are
  longer than their parents. After it has returned, the store keeps no child list and no
  subscription for \<open>k\<close> and for every container key that was reached from \<open>k\<close> through the
  cached child lists before the purge, and no root has such a key expanded or selected.
  Every other key keeps its child list, its subscription and its place in every
  expansion and selection set; in particular a key that is not a directory key is never
  taken out of a selection. The handles disposed are those of the keys that lost their
  subscription, and the rest of the snapshot is as before.
\<close>

theorem purgeDirectory_purges_containers:
  "(properChildren s \<longrightarrow> (\<exists>m. purgeDirectory H m k s \<noteq> None)) \<and>
   (purgeDirectory H n k s = Some s' \<longrightarrow>
      (\<forall>d. d = k \<or> containerDescendant H s k d \<longrightarrow> purged d s') \<and>
      (\<forall>y. y \<noteq> k \<and> \<not> containerDescendant H s k y \<longrightarrow> keptAt y s s') \<and>
      (\<forall>f r. \<not> isDirKey H f \<and> f \<noteq> k \<longrightarrow> isSelected r f s' = isSelected r f s) \<and>
      purgeFrame s s')"
proof (intro conjI impI)
  assume "properChildren s"
  then show "\<exists>m. purgeDirectory H m k s \<noteq> None" using purge_total by blast
next
  assume run: "purgeDirectory H n k s = Some s'"
  have inv: "purgeInv H s s'" "purged k s'" using purge_invariant(1) run by blast+
  show "\<forall>d. d = k \<or> containerDescendant H s k d \<longrightarrow> purged d s'"
    using inv purged_descendants by blast
  show keep: "\<forall>y. y \<noteq> k \<and> \<not> containerDescendant H s k y \<longrightarrow> keptAt y s s'"
    using purge_keeps(1) run by blast
  show "\<forall>f r. \<not> isDirKey H f \<and> f \<noteq> k \<longrightarrow> isSelected r f s' = isSelected r f s"
  proof (intro allI impI)
    fix f r assume f: "\<not> isDirKey H f \<and> f \<noteq> k"
    then have "\<not> containerDescendant H s k f" using containerDescendant_isDirKey by blast
    then have "keptAt f s s'" using keep f by blast
    then show "isSelected r f s' = isSelected r f s" by (simp add: keptAt_def)
  qed
  show "purgeFrame s s'" using purge_frame(1) run by blast
qed

theorem purgeDirectory_purges_containers_witness:
  "properChildren cachedTreeStore \<and>
   purgeDirectory pathHelpers 2 ''/a/d/'' cachedTreeStore \<noteq> None \<and>
   containerDescendant pathHelpers cachedTreeStore ''/a/d/'' ''/a/d/e/'' \<and>
   \<not> isDirKey pathHelpers ''/a/d/f'' \<and> ''/a/d/f'' \<noteq> ''/a/d/'' \<and>
   \<not> containerDescendant pathHelpers cachedTreeStore ''/a/d/'' ''/a/d/f'' \<and>
   map_option (purged ''/a/d/e/'')
     (purgeDirectory pathHelpers 2 ''/a/d/'' cachedTreeStore) = Some True \<and>
   map_option (purged ''/a/d/'')
     (purgeDirectory pathHelpers 2 ''/a/d/'' cachedTreeStore) = Some True \<and>
   map_option (keptAt ''/a/d/f'' cachedTreeStore)
     (purgeDirectory pathHelpers 2 ''/a/d/'' cachedTreeStore) = Some True \<and>
   map_option (isSelected ''/a/'' ''/a/d/f'')
     (purgeDirectory pathHelpers 2 ''/a/d/'' cachedTreeStore) = Some True \<and>
   map_option (purgeFrame cachedTreeStore)
     (purgeDirectory pathHelpers 2 ''/a/d/'' cachedTreeStore) = Some True"
proof -
  have p: "properChildren cachedTreeStore"
    by code_simp
  have "purgeDirectory pathHelpers 2 ''/a/d/'' cachedTreeStore \<noteq> None"
    by code_simp
  then obtain s' where run: "purgeDirectory pathHelpers 2 ''/a/d/'' cachedTreeStore = Some s'"
    by auto
  have "getProp (childKeyMap (data cachedTreeStore)) ''/a/d/'' = Some [''/a/d/f'', ''/a/d/e/'']"
    by code_simp
  moreover have "isDirKey pathHelpers ''/a/d/e/''"
    by code_simp
  ultimately have desc: "containerDescendant pathHelpers cachedTreeStore ''/a/d/'' ''/a/d/e/''"
    by (intro containerDescendant.child[where childKeys = "[''/a/d/f'', ''/a/d/e/'']"]) simp_all
  have f: "\<not> isDirKey pathHelpers ''/a/d/f''" "''/a/d/f'' \<noteq> ''/a/d/''"
    "isSelected ''/a/'' ''/a/d/f'' cachedTreeStore"
    by code_simp+
  have nd: "\<not> containerDescendant pathHelpers cachedTreeStore ''/a/d/'' ''/a/d/f''"
    using f(1) containerDescendant_isDirKey by blast
  note all = purgeDirectory_purges_containers
    [of cachedTreeStore pathHelpers "''/a/d/''" 2 s', THEN conjunct2, THEN mp, OF run]
  note c1 = all [THEN conjunct1]
  note c2 = all [THEN conjunct2, THEN conjunct1]
  note c3 = all [THEN conjunct2, THEN conjunct2, THEN conjunct1]
  note c4 = all [THEN conjunct2, THEN conjunct2, THEN conjunct2]
  have r1: "purged ''/a/d/e/'' s'" using c1 [rule_format, OF disjI2, OF desc] .
  have r2: "purged ''/a/d/'' s'" using c1 [rule_format, OF disjI1, OF refl] .
  have r3: "keptAt ''/a/d/f'' cachedTreeStore s'" using c2 [rule_format, OF conjI, OF f(2) nd] .
  have "isSelected ''/a/'' ''/a/d/f'' s' = isSelected ''/a/'' ''/a/d/f'' cachedTreeStore"
    using c3 [rule_format, OF conjI, OF f(1) f(2)] .
  then have r4: "isSelected ''/a/'' ''/a/d/f'' s'" using f(3) by simp
  show ?thesis unfolding run using p desc f(1,2) nd r1 r2 r3 r4 c4 by simp
qed

text \<open>
  Claim C1 as stated fails for a descendant that is a file: the selected file
  \<^verbatim>\<open>/a/d/f\<close>, a cached child of \<^verbatim>\<open>/a/d/\<close>, is still selected after \<^verbatim>\<open>/a/d/\<close> is purged.
  It also fails for a directory below \<open>k\<close> that the cached child lists do not reach:
  \<^verbatim>\<open>/a/d/e/\<close> was expanded and listed while \<^verbatim>\<open>/a/d/\<close> has no cached list, and it keeps its
  child list, its subscription and its expansion when \<^verbatim>\<open>/a/d/\<close> is purged.
\<close>

theorem purgeDirectory_keeps_selected_file:
  "getProp (childKeyMap (data cachedTreeStore)) ''/a/d/'' = Some [''/a/d/f'', ''/a/d/e/''] \<and>
   prefix ''/a/d/'' ''/a/d/f'' \<and>
   map_option (isSelected ''/a/'' ''/a/d/f'')
     (purgeDirectory pathHelpers 2 ''/a/d/'' cachedTreeStore) = Some True \<and>
   prefix ''/a/d/'' ''/a/d/e/'' \<and> isDirKey pathHelpers ''/a/d/e/'' \<and>
   map_option (isExpanded ''/a/'' ''/a/d/e/'')
     (Option.bind unlistedParentStore (purgeDirectory pathHelpers 1 ''/a/d/'')) = Some True \<and>
   map_option (getSubscription ''/a/d/e/'')
     (Option.bind unlistedParentStore (purgeDirectory pathHelpers 1 ''/a/d/'')) = Some (Some 6) \<and>
   map_option (getCachedChildKeys ''/a/'' ''/a/d/e/'')
     (Option.bind unlistedParentStore (purgeDirectory pathHelpers 1 ''/a/d/''))
     = Some [''/a/d/e/g'']"
  by code_simp

subsection \<open>Installing a child list\<close>

lemma purge_self_loop:
  assumes k: "isDirKey H k" "k \<in> set cs"
  shows "(\<forall>s. getProp (childKeyMap (data s)) k = Some cs \<longrightarrow> purgeDirectory H n k s = None) \<and>
         (\<forall>s d s1. getProp (childKeyMap (data s)) k = Some cs \<longrightarrow>
             purgeDirectory H n d s = Some s1 \<longrightarrow> getProp (childKeyMap (data s1)) k = Some cs)"
proof (induction n)
  case 0
  show ?case by simp
next
  case (Suc n)
  have keep: "getProp (childKeyMap (data s)) k = Some cs \<Longrightarrow> purgeChildKeys H n ds s = Some s1
                \<Longrightarrow> getProp (childKeyMap (data s1)) k = Some cs" for ds s s1
  proof (induction ds arbitrary: s)
    case Nil
    then show ?case by simp
  next
    case (Cons d ds)
    show ?case
    proof (cases "isDirKey H d")
      case False
      with Cons show ?thesis by simp
    next
      case True
      with Cons.prems obtain t where t: "purgeDirectory H n d s = Some t"
        and r: "purgeChildKeys H n ds t = Some s1" by (auto split: option.splits)
      from Suc.IH Cons.prems(1) t have "getProp (childKeyMap (data t)) k = Some cs" by blast
      then show ?thesis using Cons.IH r by blast
    qed
  qed
  have loop: "getProp (childKeyMap (data s)) k = Some cs \<Longrightarrow> k \<in> set ds
                \<Longrightarrow> purgeChildKeys H n ds s = None" for ds s
  proof (induction ds arbitrary: s)
    case Nil
    then show ?case by simp
  next
    case (Cons d ds)
    show ?case
    proof (cases "d = k")
      case True
      then show ?thesis using Suc.IH Cons.prems(1) k(1) by simp
    next
      case False
      then have kds: "k \<in> set ds" using Cons.prems by simp
      show ?thesis
      proof (cases "isDirKey H d")
        case False
        then show ?thesis using Cons kds by simp
      next
        case True
        show ?thesis
        proof (cases "purgeDirectory H n d s")
          case None
          then show ?thesis using True by simp
        next
          case (Some t)
          with Suc.IH Cons.prems(1) have "getProp (childKeyMap (data t)) k = Some cs" by blast
          then show ?thesis using Cons.IH kds Some True by simp
        qed
      qed
    qed
  qed
  have P: "getProp (childKeyMap (data s)) k = Some cs \<Longrightarrow> purgeDirectory H (Suc n) k s = None" for s
    using loop[OF _ k(2)] by simp
  have R: "getProp (childKeyMap (data s)) k = Some cs \<Longrightarrow> purgeDirectory H (Suc n) d s = Some s1
             \<Longrightarrow> getProp (childKeyMap (data s1)) k = Some cs" for s d s1
  proof -
    assume a: "getProp (childKeyMap (data s)) k = Some cs" "purgeDirectory H (Suc n) d s = Some s1"
    then have dk: "d \<noteq> k" using P by auto
    show ?thesis
    proof (cases "getProp (childKeyMap (data s)) d")
      case None
      with a have "s1 = purgeSelf d s" by (simp add: purgeDirectory_Suc del: purgeDirectory.simps)
      then show ?thesis using a by simp
    next
      case (Some ds)
      with a obtain t where t: "purgeChildKeys H n ds s = Some t"
        and s1: "s1 = purgeSelf d
                   (set' (\<lambda>d'. d'\<lparr>childKeyMap := deleteProperty (childKeyMap d') d\<rparr>) False t)"
        by (auto simp: purgeDirectory_Suc simp del: purgeDirectory.simps split: option.splits)
      have "getProp (childKeyMap (data t)) k = Some cs" using keep a(1) t by blast
      then show ?thesis using dk by (simp add: s1)
    qed
  qed
  show ?case using P R by blast
qed

lemma purgeChildKeys_self_loop:
  assumes "isDirKey H k" "k \<in> set cs" "getProp (childKeyMap (data s)) k = Some cs" "k \<in> set ds"
  shows "purgeChildKeys H n ds s = None"
  using assms(3,4)
proof (induction ds arbitrary: s)
  case Nil
  then show ?case by simp
next
  case (Cons d ds)
  note sl = purge_self_loop[OF assms(1,2), of n]
  show ?case
  proof (cases "isDirKey H d")
    case False
    then have "d \<noteq> k" using assms(1) by auto
    then show ?thesis using Cons False by simp
  next
    case True
    show ?thesis
    proof (cases "purgeDirectory H n d s")
      case None
      then show ?thesis using True by simp
    next
      case (Some t)
      then have "d \<noteq> k" using sl Cons.prems(1) by auto
      moreover have "getProp (childKeyMap (data t)) k = Some cs" using sl Cons.prems(1) Some by blast
      ultimately show ?thesis using Cons Some True by simp
    qed
  qed
qed

lemma purged_cong:
  assumes "getProp (childKeyMap (data t)) c = getProp (childKeyMap (data s)) c"
    "getProp (subscriptionMap (data t)) c = getProp (subscriptionMap (data s)) c"
    "expandedKeysByRoot (data t) = expandedKeysByRoot (data s)"
    "selectedKeysByRoot (data t) = selectedKeysByRoot (data s)"
  shows "purged c t = purged c s"
  using assms by (simp add: purged_def isExpanded_def isSelected_def getExpandedKeys_def getSelectedKeys_def)

lemma addSubscription_data:
  "\<exists>D S. data (addSubscription H k s) = (data s)\<lparr>isDirtyMap := D, subscriptionMap := S\<rparr> \<and>
     (\<forall>c. c \<noteq> k \<longrightarrow> getProp S c = getProp (subscriptionMap (data s)) c) \<and>
     (getProp (subscriptionMap (data s)) k \<noteq> None \<longrightarrow> S = subscriptionMap (data s))"
proof (cases "getDirectoryByKey H k")
  case False
  then have "data (addSubscription H k s)
      = (data s)\<lparr>isDirtyMap := isDirtyMap (data s), subscriptionMap := subscriptionMap (data s)\<rparr>"
    by (simp add: addSubscription_def)
  then show ?thesis by blast
next
  case True
  let ?D = "deleteProperty (isDirtyMap (data s)) k"
  consider (a) "getProp (subscriptionMap (data s)) k \<noteq> None"
    | (b) "getProp (subscriptionMap (data s)) k = None" "onDidChangeThrows H k"
    | (c) "getProp (subscriptionMap (data s)) k = None" "\<not> onDidChangeThrows H k" by blast
  then show ?thesis
  proof cases
    case a
    then have "data (addSubscription H k s) = (data s)\<lparr>isDirtyMap := ?D, subscriptionMap := subscriptionMap (data s)\<rparr>"
      using True by (simp add: addSubscription_def Let_def)
    then show ?thesis by blast
  next
    case b
    then have "data (addSubscription H k s) = (data s)\<lparr>isDirtyMap := ?D, subscriptionMap := subscriptionMap (data s)\<rparr>"
      using True by (simp add: addSubscription_def Let_def)
    then show ?thesis by blast
  next
    case c
    then have "data (addSubscription H k s) = (data s)\<lparr>isDirtyMap := ?D,
         subscriptionMap := setProperty (subscriptionMap (data s)) k
           (nextId (set' (\<lambda>d. d\<lparr>isDirtyMap := deleteProperty (isDirtyMap d) k\<rparr>) False s))\<rparr>"
      using True by (simp add: addSubscription_def Let_def)
    moreover have "\<forall>c. c \<noteq> k \<longrightarrow> getProp (setProperty (subscriptionMap (data s)) k
           (nextId (set' (\<lambda>d. d\<lparr>isDirtyMap := deleteProperty (isDirtyMap d) k\<rparr>) False s))) c
         = getProp (subscriptionMap (data s)) c"
      by simp
    ultimately show ?thesis using c(1) by blast
  qed
qed

lemma clearLoading_data:
  "\<exists>L T. data (clearLoading k s) = (data s)\<lparr>isLoadingMap := L, trackedNode := T\<rparr> \<and> getProp L k = None"
proof -
  let ?L = "deleteProperty (isLoadingMap (data s)) k"
  have "data (clearLoading k s) = (data s)\<lparr>isLoadingMap := ?L, trackedNode := trackedNode (data s)\<rparr>
      \<or> data (clearLoading k s) = (data s)\<lparr>isLoadingMap := ?L, trackedNode := None\<rparr>"
    by (simp add: clearLoading_def checkTrackedNode_def)
  moreover have "getProp ?L k = None" by simp
  ultimately show ?thesis by blast
qed

lemma clearLoading_keeps:
  "isLoadingMap (data (clearLoading k s)) = deleteProperty (isLoadingMap (data s)) k"
  "childKeyMap (data (clearLoading k s)) = childKeyMap (data s)"
  "rootKeys (data (clearLoading k s)) = rootKeys (data s)"
  "vcsStatusesByRoot (data (clearLoading k s)) = vcsStatusesByRoot (data s)"
  "expandedKeysByRoot (data (clearLoading k s)) = expandedKeysByRoot (data s)"
  "errorLog (clearLoading k s) = errorLog s" "fetchCalls (clearLoading k s) = fetchCalls s"
  by (simp_all add: clearLoading_def checkTrackedNode_def)

lemma setChildKeys_purged:
  assumes old: "getProp (childKeyMap (data s)) k = Some oldChildKeys"
    and c: "c \<in> set oldChildKeys" "isDirKey H c" "c \<notin> set newChildKeys"
    and d: "d = c \<or> containerDescendant H s c d \<and> d \<noteq> k"
    and run: "setChildKeys H n k newChildKeys s = Some s'"
  shows "purged d s' \<and> c \<noteq> k"
proof -
  let ?ds = "filter (\<lambda>childKey. childKey \<notin> set newChildKeys) oldChildKeys"
  from run old obtain s1 where s1: "purgeChildKeys H n ?ds s = Some s1"
    and s': "s' = set' (\<lambda>d. d\<lparr>childKeyMap := setProperty (childKeyMap d) k newChildKeys\<rparr>) False s1"
    by (auto simp: setChildKeys_def split: option.splits)
  have cds: "c \<in> set ?ds" using c by simp
  have ck: "c \<noteq> k"
  proof
    assume "c = k"
    then have "purgeChildKeys H n ?ds s = None"
      using purgeChildKeys_self_loop[of H k oldChildKeys s ?ds n] c old cds by simp
    with s1 show False by simp
  qed
  have inv: "purgeInv H s s1" and "purged c s1" using purge_invariant(2) s1 cds c(2) by blast+
  then have "purged d s1" using d purged_descendants by blast
  moreover have "d \<noteq> k" using d ck by blast
  then have "purged d s' = purged d s1" unfolding s' by (intro purged_cong) simp_all
  ultimately show ?thesis using ck by simp
qed

lemma purgeChildKeys_effect:
  assumes run: "purgeChildKeys H n ds s = Some s1"
  shows "\<And>y. (\<exists>c \<in> set ds. isDirKey H c \<and> (y = c \<or> containerDescendant H s c y)) \<Longrightarrow> purged y s1"
    and "\<And>y. \<not> (\<exists>c \<in> set ds. isDirKey H c \<and> (y = c \<or> containerDescendant H s c y)) \<Longrightarrow> keptAt y s s1"
    and "purgeFrame s s1"
proof -
  have inv: "purgeInv H s s1" and pc: "\<forall>c \<in> set ds. isDirKey H c \<longrightarrow> purged c s1"
    using purge_invariant(2) run by blast+
  show "purged y s1"
    if yR: "\<exists>c \<in> set ds. isDirKey H c \<and> (y = c \<or> containerDescendant H s c y)" for y
  proof -
    obtain c where c: "c \<in> set ds" "isDirKey H c" "y = c \<or> containerDescendant H s c y"
      using yR by blast
    have p: "purged c s1" using pc c by blast
    show ?thesis
    proof (cases "y = c")
      case True then show ?thesis using p by simp
    next
      case False
      then have "containerDescendant H s c y" using c(3) by simp
      then show ?thesis using inv p by (rule purged_descendants)
    qed
  qed
  show "keptAt y s s1"
    if "\<not> (\<exists>c \<in> set ds. isDirKey H c \<and> (y = c \<or> containerDescendant H s c y))" for y
    using purge_keeps(2) run that by blast
  show "purgeFrame s s1" using purge_frame(2) run by blast
qed

lemma installed_after_purge:
  assumes gone: "\<And>y. R y \<Longrightarrow> purged y s1"
    and kept: "\<And>y. \<not> R y \<Longrightarrow> keptAt y s s1"
    and frame: "purgeFrame s s1"
    and R: "\<And>y. removedUnder H s k newChildKeys y = R y"
    and s': "s' = set' (\<lambda>d. d\<lparr>childKeyMap := setProperty (childKeyMap d) k newChildKeys\<rparr>) False s1"
  shows "installed H k newChildKeys s s'"
    and "getSubscription k s' = (if removedUnder H s k newChildKeys k then None else getSubscription k s)"
    and "isDirtyMap (data s') = isDirtyMap (data s)" and "isLoadingMap (data s') = isLoadingMap (data s)"
    and "errorLog s' = errorLog s" and "watchCalls s' = watchCalls s"
proof -
  have cm1: "getProp (childKeyMap (data s1)) y = (if R y then None else getProp (childKeyMap (data s)) y)" for y
    using gone[of y] kept[of y] by (simp add: purged_def keptAt_def)
  have sub1: "getSubscription y s1 = (if R y then None else getSubscription y s)" for y
    using gone[of y] kept[of y] by (simp add: purged_def keptAt_def getSubscription_def)
  have ex1: "isExpanded r y s1 \<longleftrightarrow> isExpanded r y s \<and> \<not> R y" for r y
    using gone[of y] kept[of y] by (cases "R y") (simp_all add: purged_def keptAt_def)
  have sel1: "isSelected r y s1 \<longleftrightarrow> isSelected r y s \<and> \<not> R y" for r y
    using gone[of y] kept[of y] by (cases "R y") (simp_all add: purged_def keptAt_def)
  have u: "purgeUntouched s s1" and h: "handlesReleased s s1"
    using frame by (simp_all add: purgeFrame_def)
  have "{h. \<exists>y. getSubscription y s = Some h \<and> getSubscription y s1 = None}
        = {h. \<exists>y. R y \<and> getSubscription y s = Some h}"
    by (auto simp: sub1 split: if_splits)
  then have disp1: "set (disposed s1) = set (disposed s) \<union> {h. \<exists>y. R y \<and> getSubscription y s = Some h}"
    using h by (simp add: handlesReleased_def)
  have d: "data s' = (data s1)\<lparr>childKeyMap := setProperty (childKeyMap (data s1)) k newChildKeys\<rparr>"
    by (simp add: s')
  have sub': "getSubscription y s' = getSubscription y s1" for y
    by (simp add: getSubscription_def d)
  have ex': "isExpanded r y s' = isExpanded r y s1" for r y
    by (rule isExpanded_cong) (simp add: d)
  have sel': "isSelected r y s' = isSelected r y s1" for r y
    by (rule isSelected_cong) (simp add: d)
  have w: "disposed s' = disposed s1" "emitted s' = emitted s1" "fetchCalls s' = fetchCalls s1"
    "errorLog s' = errorLog s1" "watchCalls s' = watchCalls s1"
    by (simp_all add: s' emitted_set')
  have c1: "\<forall>y. getProp (childKeyMap (data s')) y =
            (if y = k then Some newChildKeys
             else if removedUnder H s k newChildKeys y then None
             else getProp (childKeyMap (data s)) y)"
    by (simp add: d cm1 R)
  have c2: "\<forall>y. y \<noteq> k \<longrightarrow>
          getSubscription y s' =
            (if removedUnder H s k newChildKeys y then None else getSubscription y s)"
    by (simp add: sub' sub1 R)
  have c3: "\<forall>r y. isExpanded r y s' \<longleftrightarrow> isExpanded r y s \<and> \<not> removedUnder H s k newChildKeys y"
    by (simp add: ex' ex1 R)
  have c4: "\<forall>r y. isSelected r y s' \<longleftrightarrow> isSelected r y s \<and> \<not> removedUnder H s k newChildKeys y"
    by (simp add: sel' sel1 R)
  have c5: "set (disposed s') =
       set (disposed s) \<union>
       {h. \<exists>y. removedUnder H s k newChildKeys y \<and> getSubscription y s = Some h}"
    by (simp add: w disp1 R)
  have c6: "\<forall>y. y \<noteq> k \<longrightarrow>
          getProp (isDirtyMap (data s')) y = getProp (isDirtyMap (data s)) y \<and>
          getLoading y s' = getLoading y s"
    using u by (simp add: d getLoading_def purgeUntouched_def)
  have c7: "previouslyExpanded (data s') = previouslyExpanded (data s)"
    "rootKeys (data s') = rootKeys (data s)"
    "vcsStatusesByRoot (data s') = vcsStatusesByRoot (data s)"
    "fetchCalls s' = fetchCalls s" "emitted s' = emitted s"
    using u by (simp_all add: d w purgeUntouched_def)
  show "installed H k newChildKeys s s'"
    unfolding installed_def using c1 c2 c3 c4 c5 c6 c7 by (intro conjI) assumption+
  show "getSubscription k s' = (if removedUnder H s k newChildKeys k then None else getSubscription k s)"
    by (simp add: sub' sub1 R)
  show "isDirtyMap (data s') = isDirtyMap (data s)" "isLoadingMap (data s') = isLoadingMap (data s)"
    "errorLog s' = errorLog s" "watchCalls s' = watchCalls s"
    using u by (simp_all add: d w purgeUntouched_def)
qed

lemma setChildKeys_installed:
  assumes run: "setChildKeys H n k newChildKeys s = Some s'"
  shows "installed H k newChildKeys s s' \<and>
         getSubscription k s' = (if removedUnder H s k newChildKeys k then None else getSubscription k s) \<and>
         isDirtyMap (data s') = isDirtyMap (data s) \<and> isLoadingMap (data s') = isLoadingMap (data s) \<and>
         errorLog s' = errorLog s \<and> watchCalls s' = watchCalls s"
proof (cases "getProp (childKeyMap (data s)) k")
  case None
  with run have s': "s' = set' (\<lambda>d. d\<lparr>childKeyMap := setProperty (childKeyMap d) k newChildKeys\<rparr>) False s"
    by (simp add: setChildKeys_def)
  have R: "\<And>y. removedUnder H s k newChildKeys y = False"
    by (simp add: removedUnder_def None)
  show ?thesis
    using installed_after_purge[where R = "\<lambda>y. False" and ?s1.0 = s, OF _ _ _ R s'] by simp
next
  case (Some oldChildKeys)
  let ?ds = "filter (\<lambda>childKey. childKey \<notin> set newChildKeys) oldChildKeys"
  let ?R = "\<lambda>y. \<exists>c \<in> set ?ds. isDirKey H c \<and> (y = c \<or> containerDescendant H s c y)"
  from run Some obtain s1 where s1: "purgeChildKeys H n ?ds s = Some s1"
    and s': "s' = set' (\<lambda>d. d\<lparr>childKeyMap := setProperty (childKeyMap d) k newChildKeys\<rparr>) False s1"
    by (auto simp: setChildKeys_def split: option.splits)
  have R: "\<And>y. removedUnder H s k newChildKeys y = ?R y"
    unfolding removedUnder_def Some by auto
  note e = purgeChildKeys_effect[OF s1]
  show ?thesis
    using installed_after_purge[where R = ?R and ?s1.0 = s1, OF e(1) e(2) e(3) R s'] by blast
qed

lemma installed_step:
  assumes i: "installed H k newChildKeys s t"
    and "childKeyMap (data u) = childKeyMap (data t)"
    and "\<And>y. y \<noteq> k \<Longrightarrow> getSubscription y u = getSubscription y t"
    and "expandedKeysByRoot (data u) = expandedKeysByRoot (data t)"
    and "selectedKeysByRoot (data u) = selectedKeysByRoot (data t)"
    and "disposed u = disposed t"
    and "\<And>y. y \<noteq> k \<Longrightarrow> getProp (isDirtyMap (data u)) y = getProp (isDirtyMap (data t)) y"
    and "\<And>y. y \<noteq> k \<Longrightarrow> getLoading y u = getLoading y t"
    and "previouslyExpanded (data u) = previouslyExpanded (data t)"
    and "rootKeys (data u) = rootKeys (data t)"
    and "vcsStatusesByRoot (data u) = vcsStatusesByRoot (data t)"
    and "fetchCalls u = fetchCalls t" and "emitted u = emitted t"
  shows "installed H k newChildKeys s u"
proof -
  have ex: "isExpanded r y u = isExpanded r y t" for r y
    by (rule isExpanded_cong) (simp add: assms(4))
  have sel: "isSelected r y u = isSelected r y t" for r y
    by (rule isSelected_cong) (simp add: assms(5))
  show ?thesis
    using i unfolding installed_def
    by (simp add: ex sel assms(2,3,6-13))
qed

lemma addSubscription_effect:
  "childKeyMap (data (addSubscription H k s)) = childKeyMap (data s)"
  "expandedKeysByRoot (data (addSubscription H k s)) = expandedKeysByRoot (data s)"
  "selectedKeysByRoot (data (addSubscription H k s)) = selectedKeysByRoot (data s)"
  "previouslyExpanded (data (addSubscription H k s)) = previouslyExpanded (data s)"
  "rootKeys (data (addSubscription H k s)) = rootKeys (data s)"
  "vcsStatusesByRoot (data (addSubscription H k s)) = vcsStatusesByRoot (data s)"
  "isLoadingMap (data (addSubscription H k s)) = isLoadingMap (data s)"
  "isDirtyMap (data (addSubscription H k s)) =
     (if getDirectoryByKey H k then deleteProperty (isDirtyMap (data s)) k else isDirtyMap (data s))"
  "y \<noteq> k \<Longrightarrow> getSubscription y (addSubscription H k s) = getSubscription y s"
  "getDirectoryByKey H k \<Longrightarrow> \<not> onDidChangeThrows H k \<Longrightarrow>
     getSubscription k (addSubscription H k s) \<noteq> None"
  "disposed (addSubscription H k s) = disposed s" "emitted (addSubscription H k s) = emitted s"
  "fetchCalls (addSubscription H k s) = fetchCalls s"
  by (simp_all add: addSubscription_def Let_def getSubscription_def emitted_set')

lemma clearLoading_effect:
  "selectedKeysByRoot (data (clearLoading k s)) = selectedKeysByRoot (data s)"
  "previouslyExpanded (data (clearLoading k s)) = previouslyExpanded (data s)"
  "subscriptionMap (data (clearLoading k s)) = subscriptionMap (data s)"
  "isDirtyMap (data (clearLoading k s)) = isDirtyMap (data s)"
  "disposed (clearLoading k s) = disposed s" "emitted (clearLoading k s) = emitted s"
  "watchCalls (clearLoading k s) = watchCalls s"
  by (simp_all add: clearLoading_def checkTrackedNode_def emitted_set')

lemma fetchResolved_installed:
  assumes root: "getRootForKey k s \<noteq> None" and run: "fetchResolved H n k newChildKeys s = Some s'"
  shows "installed H k newChildKeys s s' \<and> getLoading k s' = None \<and>
         (getDirectoryByKey H k \<longrightarrow> getProp (isDirtyMap (data s')) k = None \<and>
            (\<not> onDidChangeThrows H k \<longrightarrow> getSubscription k s' \<noteq> None))"
proof -
  from root run obtain s1 where s1: "setChildKeys H n k newChildKeys s = Some s1"
    and s': "s' = clearLoading k (addSubscription H k s1)"
    by (auto simp: fetchResolved_def split: option.splits)
  have i1: "installed H k newChildKeys s s1" using setChildKeys_installed[OF s1] by blast
  have "installed H k newChildKeys s s'"
    using i1
  proof (rule installed_step)
    show "childKeyMap (data s') = childKeyMap (data s1)"
      by (simp add: s' clearLoading_keeps addSubscription_effect)
    show "getSubscription y s' = getSubscription y s1" if "y \<noteq> k" for y
      using addSubscription_effect(9)[OF that, of H s1]
      by (simp add: s' getSubscription_def clearLoading_effect)
    show "expandedKeysByRoot (data s') = expandedKeysByRoot (data s1)"
      by (simp add: s' clearLoading_keeps addSubscription_effect)
    show "selectedKeysByRoot (data s') = selectedKeysByRoot (data s1)"
      by (simp add: s' clearLoading_effect addSubscription_effect)
    show "disposed s' = disposed s1"
      by (simp add: s' clearLoading_effect addSubscription_effect)
    show "getProp (isDirtyMap (data s')) y = getProp (isDirtyMap (data s1)) y" if "y \<noteq> k" for y
      using that by (simp add: s' clearLoading_effect addSubscription_effect)
    show "getLoading y s' = getLoading y s1" if "y \<noteq> k" for y
      using that by (simp add: s' getLoading_def clearLoading_keeps addSubscription_effect)
    show "previouslyExpanded (data s') = previouslyExpanded (data s1)"
      by (simp add: s' clearLoading_effect addSubscription_effect)
    show "rootKeys (data s') = rootKeys (data s1)"
      by (simp add: s' clearLoading_keeps addSubscription_effect)
    show "vcsStatusesByRoot (data s') = vcsStatusesByRoot (data s1)"
      by (simp add: s' clearLoading_keeps addSubscription_effect)
    show "fetchCalls s' = fetchCalls s1"
      by (simp add: s' clearLoading_keeps addSubscription_effect)
    show "emitted s' = emitted s1"
      by (simp add: s' clearLoading_effect addSubscription_effect)
  qed
  moreover have "getLoading k s' = None"
    by (simp add: s' getLoading_def clearLoading_keeps)
  moreover have "getProp (isDirtyMap (data s')) k = None" if "getDirectoryByKey H k"
    using that by (simp add: s' clearLoading_effect addSubscription_effect)
  moreover have "getSubscription k s' \<noteq> None" if "getDirectoryByKey H k" "\<not> onDidChangeThrows H k"
    using addSubscription_effect(10)[OF that, of s1]
    by (simp add: s' getSubscription_def clearLoading_effect)
  ultimately show ?thesis by blast
qed

lemma createChild_installed:
  assumes run: "createChild H n k childKey s = Some s'"
  shows "installed H k [childKey] s s' \<and>
         getSubscription k s' = (if removedUnder H s k [childKey] k then None else getSubscription k s) \<and>
         getProp (isDirtyMap (data s')) k = Some True \<and>
         isLoadingMap (data s') = isLoadingMap (data s) \<and>
         errorLog s' = errorLog s \<and> watchCalls s' = watchCalls s"
proof -
  from run obtain s1 where s1: "setChildKeys H n k [childKey] s = Some s1"
    and s': "s' = set' (\<lambda>d. d\<lparr>isDirtyMap := setProperty (isDirtyMap d) k True\<rparr>) False s1"
    by (auto simp: createChild_def split: option.splits)
  note b = setChildKeys_installed[OF s1]
  have d: "data s' = (data s1)\<lparr>isDirtyMap := setProperty (isDirtyMap (data s1)) k True\<rparr>"
    by (simp add: s')
  have "installed H k [childKey] s s'"
  proof (rule installed_step)
    show "installed H k [childKey] s s1" using b by blast
  qed (simp_all add: d getSubscription_def getLoading_def, simp_all add: s' emitted_set')
  moreover have "getSubscription k s' = getSubscription k s1" by (simp add: getSubscription_def d)
  moreover have "getProp (isDirtyMap (data s')) k = Some True" by (simp add: d)
  moreover have "isLoadingMap (data s') = isLoadingMap (data s1)" by (simp add: d)
  moreover have "errorLog s' = errorLog s1" "watchCalls s' = watchCalls s1" by (simp_all add: s')
  ultimately show ?thesis using b by simp
qed

lemma setChildKeys_total:
  assumes "properChildren s"
  shows "\<exists>m. setChildKeys H m k newChildKeys s \<noteq> None \<and> fetchResolved H m k newChildKeys s \<noteq> None \<and>
             createChild H m k childKey s \<noteq> None"
proof -
  obtain m where m: "\<forall>k childKeys. purgeDirectory H m k s \<noteq> None \<and> purgeChildKeys H m childKeys s \<noteq> None"
    using purge_total[OF assms] by blast
  have a: "setChildKeys H m k cs s \<noteq> None" for cs
    using m by (auto simp: setChildKeys_def split: option.splits)
  have "fetchResolved H m k newChildKeys s \<noteq> None"
    using a[of newChildKeys] by (auto simp: fetchResolved_def split: option.splits)
  moreover have "createChild H m k childKey s \<noteq> None"
    using a[of "[childKey]"] by (auto simp: createChild_def split: option.splits)
  ultimately show ?thesis using a by blast
qed

lemma removed_directories_purged:
  assumes old: "getProp (childKeyMap (data s)) k = Some oldChildKeys"
    and c: "c \<in> set oldChildKeys" "isDirKey H c" "c \<notin> set newChildKeys"
    and d: "d = c \<or> containerDescendant H s c d \<and> d \<noteq> k"
  shows "(setChildKeys H n k newChildKeys s = Some s' \<longrightarrow> purged d s') \<and>
         (getRootForKey k s \<noteq> None \<longrightarrow> fetchResolved H n k newChildKeys s = Some s' \<longrightarrow> purged d s') \<and>
         (newChildKeys = [childKey] \<longrightarrow> createChild H n k childKey s = Some s' \<longrightarrow> purged d s')"
proof (intro conjI impI)
  assume "setChildKeys H n k newChildKeys s = Some s'"
  then show "purged d s'" using setChildKeys_purged[OF old c d] by blast
next
  assume root: "getRootForKey k s \<noteq> None" and run: "fetchResolved H n k newChildKeys s = Some s'"
  then obtain s1 where s1: "setChildKeys H n k newChildKeys s = Some s1"
    and s': "s' = clearLoading k (addSubscription H k s1)"
    by (auto simp: fetchResolved_def split: option.splits)
  have p: "purged d s1" "c \<noteq> k" using setChildKeys_purged[OF old c d s1] by blast+
  then have dk: "d \<noteq> k" using d by blast
  obtain D S where a: "data (addSubscription H k s1) = (data s1)\<lparr>isDirtyMap := D, subscriptionMap := S\<rparr>"
    "\<forall>c. c \<noteq> k \<longrightarrow> getProp S c = getProp (subscriptionMap (data s1)) c"
    using addSubscription_data by blast
  obtain L T where b: "data s' = (data (addSubscription H k s1))\<lparr>isLoadingMap := L, trackedNode := T\<rparr>"
    unfolding s' using clearLoading_data by blast
  have "purged d s' = purged d s1"
    by (intro purged_cong) (simp_all add: a b dk)
  then show "purged d s'" using p by simp
next
  assume new: "newChildKeys = [childKey]" and run: "createChild H n k childKey s = Some s'"
  then obtain s1 where s1: "setChildKeys H n k newChildKeys s = Some s1"
    and s': "s' = set' (\<lambda>d. d\<lparr>isDirtyMap := setProperty (isDirtyMap d) k True\<rparr>) False s1"
    by (auto simp: createChild_def split: option.splits)
  have p: "purged d s1" using setChildKeys_purged[OF old c d s1] by blast
  have "purged d s' = purged d s1" unfolding s'
    by (intro purged_cong) simp_all
  then show "purged d s'" using p by simp
qed

text \<open>
  Claim C10. Installing a new child list for \<open>k\<close> (by \<^verbatim>\<open>_setChildKeys\<close> itself, on fetch
  success while \<open>k\<close> still has a root, or by \<^verbatim>\<open>_createChild\<close>) returns on every cache whose
  child keys are longer than their parents. When it has returned, \<open>k\<close> has the new list;
  every directory key of the old cached list that is not in the new list, and every
  container key below it in the cache, has no child list, no subscription, and is not
  expanded and not selected under any root; every other key keeps its child list,
  subscription, expansion and selection; the handles disposed are those of the removed
  keys; and the rest of the snapshot is as before, apart from what each path does to
  \<open>k\<close> itself (the fetch clears the loading entry and the dirty mark and subscribes,
  \<^verbatim>\<open>_createChild\<close> marks \<open>k\<close> dirty).
\<close>

theorem setChildKeys_purges_removed_directories:
  "(properChildren s \<longrightarrow>
      (\<exists>m. setChildKeys H m k newChildKeys s \<noteq> None \<and>
           fetchResolved H m k newChildKeys s \<noteq> None \<and>
           createChild H m k childKey s \<noteq> None)) \<and>
   (setChildKeys H n k newChildKeys s = Some s' \<longrightarrow>
      installed H k newChildKeys s s' \<and>
      getSubscription k s' =
        (if removedUnder H s k newChildKeys k then None else getSubscription k s) \<and>
      isDirtyMap (data s') = isDirtyMap (data s) \<and>
      isLoadingMap (data s') = isLoadingMap (data s) \<and>
      errorLog s' = errorLog s \<and> watchCalls s' = watchCalls s) \<and>
   (getRootForKey k s \<noteq> None \<longrightarrow> fetchResolved H n k newChildKeys s = Some s' \<longrightarrow>
      installed H k newChildKeys s s' \<and> getLoading k s' = None \<and>
      (getDirectoryByKey H k \<longrightarrow>
         getProp (isDirtyMap (data s')) k = None \<and>
         (\<not> onDidChangeThrows H k \<longrightarrow> getSubscription k s' \<noteq> None))) \<and>
   (createChild H n k childKey s = Some s' \<longrightarrow>
      installed H k [childKey] s s' \<and>
      getSubscription k s' =
        (if removedUnder H s k [childKey] k then None else getSubscription k s) \<and>
      getProp (isDirtyMap (data s')) k = Some True \<and>
      isLoadingMap (data s') = isLoadingMap (data s) \<and>
      errorLog s' = errorLog s \<and> watchCalls s' = watchCalls s) \<and>
   (getProp (childKeyMap (data s)) k = Some oldChildKeys \<and> c \<in> set oldChildKeys \<and>
    isDirKey H c \<and> c \<notin> set newChildKeys \<and>
    (d = c \<or> containerDescendant H s c d \<and> d \<noteq> k) \<longrightarrow>
      (setChildKeys H n k newChildKeys s = Some s' \<longrightarrow> purged d s') \<and>
      (getRootForKey k s \<noteq> None \<longrightarrow> fetchResolved H n k newChildKeys s = Some s' \<longrightarrow>
         purged d s') \<and>
      (newChildKeys = [childKey] \<longrightarrow> createChild H n k childKey s = Some s' \<longrightarrow> purged d s'))"
proof -
  have a: "properChildren s \<longrightarrow>
      (\<exists>m. setChildKeys H m k newChildKeys s \<noteq> None \<and>
           fetchResolved H m k newChildKeys s \<noteq> None \<and>
           createChild H m k childKey s \<noteq> None)"
    using setChildKeys_total by blast
  have b: "setChildKeys H n k newChildKeys s = Some s' \<longrightarrow>
      installed H k newChildKeys s s' \<and>
      getSubscription k s' =
        (if removedUnder H s k newChildKeys k then None else getSubscription k s) \<and>
      isDirtyMap (data s') = isDirtyMap (data s) \<and>
      isLoadingMap (data s') = isLoadingMap (data s) \<and>
      errorLog s' = errorLog s \<and> watchCalls s' = watchCalls s"
    using setChildKeys_installed by blast
  have c: "getRootForKey k s \<noteq> None \<longrightarrow> fetchResolved H n k newChildKeys s = Some s' \<longrightarrow>
      installed H k newChildKeys s s' \<and> getLoading k s' = None \<and>
      (getDirectoryByKey H k \<longrightarrow>
         getProp (isDirtyMap (data s')) k = None \<and>
         (\<not> onDidChangeThrows H k \<longrightarrow> getSubscription k s' \<noteq> None))"
    using fetchResolved_installed by blast
  have d: "createChild H n k childKey s = Some s' \<longrightarrow>
      installed H k [childKey] s s' \<and>
      getSubscription k s' =
        (if removedUnder H s k [childKey] k then None else getSubscription k s) \<and>
      getProp (isDirtyMap (data s')) k = Some True \<and>
      isLoadingMap (data s') = isLoadingMap (data s) \<and>
      errorLog s' = errorLog s \<and> watchCalls s' = watchCalls s"
    using createChild_installed by blast
  have e: "getProp (childKeyMap (data s)) k = Some oldChildKeys \<and> c \<in> set oldChildKeys \<and>
    isDirKey H c \<and> c \<notin> set newChildKeys \<and>
    (d = c \<or> containerDescendant H s c d \<and> d \<noteq> k) \<longrightarrow>
      (setChildKeys H n k newChildKeys s = Some s' \<longrightarrow> purged d s') \<and>
      (getRootForKey k s \<noteq> None \<longrightarrow> fetchResolved H n k newChildKeys s = Some s' \<longrightarrow>
         purged d s') \<and>
      (newChildKeys = [childKey] \<longrightarrow> createChild H n k childKey s = Some s' \<longrightarrow> purged d s')"
    using removed_directories_purged[of s k oldChildKeys c H newChildKeys d n s' childKey] by blast
  show ?thesis using a b c d e by (intro conjI)
qed

theorem setChildKeys_purges_removed_directories_witness:
  "properChildren cachedTreeStore \<and>
   getProp (childKeyMap (data cachedTreeStore)) ''/a/'' = Some [''/a/d/''] \<and>
   ''/a/d/'' \<in> set [''/a/d/''] \<and> isDirKey pathHelpers ''/a/d/'' \<and> ''/a/d/'' \<notin> set [''/a/x''] \<and>
   containerDescendant pathHelpers cachedTreeStore ''/a/d/'' ''/a/d/e/'' \<and>
   ''/a/d/e/'' \<noteq> ''/a/'' \<and> getRootForKey ''/a/'' cachedTreeStore \<noteq> None \<and>
   getDirectoryByKey pathHelpers ''/a/'' \<and> \<not> onDidChangeThrows pathHelpers ''/a/'' \<and>
   setChildKeys pathHelpers 3 ''/a/'' [''/a/x''] cachedTreeStore \<noteq> None \<and>
   fetchResolved pathHelpers 3 ''/a/'' [''/a/x''] cachedTreeStore \<noteq> None \<and>
   createChild pathHelpers 3 ''/a/'' ''/a/x'' cachedTreeStore \<noteq> None \<and>
   map_option (installed pathHelpers ''/a/'' [''/a/x''] cachedTreeStore)
     (setChildKeys pathHelpers 3 ''/a/'' [''/a/x''] cachedTreeStore) = Some True \<and>
   map_option (purged ''/a/d/e/'')
     (setChildKeys pathHelpers 3 ''/a/'' [''/a/x''] cachedTreeStore) = Some True \<and>
   map_option (installed pathHelpers ''/a/'' [''/a/x''] cachedTreeStore)
     (fetchResolved pathHelpers 3 ''/a/'' [''/a/x''] cachedTreeStore) = Some True \<and>
   map_option (getLoading ''/a/'')
     (fetchResolved pathHelpers 3 ''/a/'' [''/a/x''] cachedTreeStore) = Some None \<and>
   map_option (purged ''/a/d/e/'')
     (fetchResolved pathHelpers 3 ''/a/'' [''/a/x''] cachedTreeStore) = Some True \<and>
   map_option (installed pathHelpers ''/a/'' [''/a/x''] cachedTreeStore)
     (createChild pathHelpers 3 ''/a/'' ''/a/x'' cachedTreeStore) = Some True \<and>
   map_option (purged ''/a/d/e/'')
     (createChild pathHelpers 3 ''/a/'' ''/a/x'' cachedTreeStore) = Some True"
proof -
  have p: "properChildren cachedTreeStore"
    by code_simp
  have old: "getProp (childKeyMap (data cachedTreeStore)) ''/a/'' = Some [''/a/d/'']"
    by code_simp
  have c: "''/a/d/'' \<in> set [''/a/d/'']" "isDirKey pathHelpers ''/a/d/''"
    "''/a/d/'' \<notin> set [''/a/x'']"
    by code_simp+
  have "getProp (childKeyMap (data cachedTreeStore)) ''/a/d/'' = Some [''/a/d/f'', ''/a/d/e/'']"
    by code_simp
  moreover have "isDirKey pathHelpers ''/a/d/e/''"
    by code_simp
  ultimately have desc: "containerDescendant pathHelpers cachedTreeStore ''/a/d/'' ''/a/d/e/''"
    by (intro containerDescendant.child[where childKeys = "[''/a/d/f'', ''/a/d/e/'']"]) simp_all
  have ne: "''/a/d/e/'' \<noteq> ''/a/''"
    by simp
  have root: "getRootForKey ''/a/'' cachedTreeStore \<noteq> None"
    by code_simp
  have dir: "getDirectoryByKey pathHelpers ''/a/''" "\<not> onDidChangeThrows pathHelpers ''/a/''"
    by code_simp+
  have hyp: "getProp (childKeyMap (data cachedTreeStore)) ''/a/'' = Some [''/a/d/''] \<and>
      ''/a/d/'' \<in> set [''/a/d/''] \<and> isDirKey pathHelpers ''/a/d/'' \<and> ''/a/d/'' \<notin> set [''/a/x''] \<and>
      (''/a/d/e/'' = ''/a/d/'' \<or>
       containerDescendant pathHelpers cachedTreeStore ''/a/d/'' ''/a/d/e/'' \<and> ''/a/d/e/'' \<noteq> ''/a/'')"
    using old c desc by simp
  have "setChildKeys pathHelpers 3 ''/a/'' [''/a/x''] cachedTreeStore \<noteq> None"
    by code_simp
  then obtain s1 where s1: "setChildKeys pathHelpers 3 ''/a/'' [''/a/x''] cachedTreeStore = Some s1"
    by auto
  have "fetchResolved pathHelpers 3 ''/a/'' [''/a/x''] cachedTreeStore \<noteq> None"
    by code_simp
  then obtain s2 where s2: "fetchResolved pathHelpers 3 ''/a/'' [''/a/x''] cachedTreeStore = Some s2"
    by auto
  have "createChild pathHelpers 3 ''/a/'' ''/a/x'' cachedTreeStore \<noteq> None"
    by code_simp
  then obtain s3 where s3: "createChild pathHelpers 3 ''/a/'' ''/a/x'' cachedTreeStore = Some s3"
    by auto
  note t1 = setChildKeys_purges_removed_directories
    [where s = cachedTreeStore and H = pathHelpers and k = "''/a/''" and newChildKeys = "[''/a/x'']"
       and childKey = "''/a/x''" and n = 3 and s' = s1 and oldChildKeys = "[''/a/d/'']"
       and c = "''/a/d/''" and d = "''/a/d/e/''", THEN conjunct2]
  note t2 = setChildKeys_purges_removed_directories
    [where s = cachedTreeStore and H = pathHelpers and k = "''/a/''" and newChildKeys = "[''/a/x'']"
       and childKey = "''/a/x''" and n = 3 and s' = s2 and oldChildKeys = "[''/a/d/'']"
       and c = "''/a/d/''" and d = "''/a/d/e/''", THEN conjunct2, THEN conjunct2]
  note t3 = setChildKeys_purges_removed_directories
    [where s = cachedTreeStore and H = pathHelpers and k = "''/a/''" and newChildKeys = "[''/a/x'']"
       and childKey = "''/a/x''" and n = 3 and s' = s3 and oldChildKeys = "[''/a/d/'']"
       and c = "''/a/d/''" and d = "''/a/d/e/''", THEN conjunct2, THEN conjunct2, THEN conjunct2]
  have i1: "installed pathHelpers ''/a/'' [''/a/x''] cachedTreeStore s1"
    using t1 [THEN conjunct1, THEN mp, OF s1, THEN conjunct1] .
  have p1: "purged ''/a/d/e/'' s1"
    using t1 [THEN conjunct2, THEN conjunct2, THEN conjunct2, THEN mp, OF hyp, THEN conjunct1,
        THEN mp, OF s1] .
  have i2: "installed pathHelpers ''/a/'' [''/a/x''] cachedTreeStore s2"
    using t2 [THEN conjunct1, THEN mp, OF root, THEN mp, OF s2, THEN conjunct1] .
  have l2: "getLoading ''/a/'' s2 = None"
    using t2 [THEN conjunct1, THEN mp, OF root, THEN mp, OF s2, THEN conjunct2, THEN conjunct1] .
  have p2: "purged ''/a/d/e/'' s2"
    using t2 [THEN conjunct2, THEN conjunct2, THEN mp, OF hyp, THEN conjunct2, THEN conjunct1,
        THEN mp, OF root, THEN mp, OF s2] .
  have i3: "installed pathHelpers ''/a/'' [''/a/x''] cachedTreeStore s3"
    using t3 [THEN conjunct1, THEN mp, OF s3, THEN conjunct1] .
  have p3: "purged ''/a/d/e/'' s3"
    using t3 [THEN conjunct2, THEN mp, OF hyp, THEN conjunct2, THEN conjunct2,
        THEN mp, OF refl, THEN mp, OF s3] .
  show ?thesis unfolding s1 s2 s3
    using p old c desc ne root dir i1 p1 i2 l2 p2 i3 p3 by simp
qed

subsection \<open>Change notifications\<close>

lemma pendingOk_set': "pendingOk s \<Longrightarrow> pendingOk (set' u fl s)"
  by (auto simp: pendingOk_def set'_def Let_def clearImmediate_def split: option.splits)

lemma set'_changing:
  assumes "pendingOk s" "u (data s) \<noteq> data s"
  shows "emitted (set' u False s) = emitted s \<and> length (immediates (set' u False s)) = 1
     \<and> pendingOk (set' u False s) \<and> data (set' u False s) = u (data s)"
  using assms by (auto simp: pendingOk_def set'_def Let_def clearImmediate_def split: option.splits)

lemma setAll_changing:
  assumes "pendingOk s" "us \<noteq> []" "changing us (data s)"
  shows "emitted (setAll us s) = emitted s \<and> length (immediates (setAll us s)) = 1"
  using assms
proof (induction us arbitrary: s)
  case Nil
  then show ?case by simp
next
  case (Cons u us)
  from Cons.prems have ch: "u (data s) \<noteq> data s" "changing us (u (data s))" by simp_all
  have st: "emitted (set' u False s) = emitted s \<and> length (immediates (set' u False s)) = 1
     \<and> pendingOk (set' u False s) \<and> data (set' u False s) = u (data s)"
    using set'_changing[of s u] Cons.prems(1) ch(1) by blast
  show ?case
  proof (cases "us = []")
    case True
    then show ?thesis using st by (simp add: setAll_def)
  next
    case False
    have "emitted (setAll us (set' u False s)) = emitted (set' u False s) \<and>
          length (immediates (setAll us (set' u False s))) = 1"
      using Cons.IH[of "set' u False s"] st False ch(2) by simp
    then show ?thesis using st by (simp add: setAll_def)
  qed
qed

text \<open>
  Claim C5. Any number (at least one) of non-flushing writes that each change the
  snapshot, issued in one tick from a store whose only pending immediate is the one in
  \<^verbatim>\<open>this._timer\<close>, emit nothing during the tick and exactly one change when the tick ends:
  each write cancels the immediate scheduled by the one before. Setting the tracked
  node emits one change at once, whatever is pending, and cancels the pending immediate.
\<close>

theorem debounced_changes_emit_once:
  assumes "pendingOk s" "us \<noteq> []" "changing us (data s)" "trackedFresh t"
  shows "emitted (setAll us s) = emitted s \<and>
         emitted (runImmediates (setAll us s)) = Suc (emitted s) \<and>
         immediates (runImmediates (setAll us s)) = [] \<and>
         emitted (setTrackedNode rootKey nodeKey t) = Suc (emitted t) \<and>
         immediates (setTrackedNode rootKey nodeKey t) = clearImmediate (timer t) (immediates t)"
proof -
  have "(data t)\<lparr>trackedNode := Some \<lparr>trackedId = nextId t, trackedNodeKey = nodeKey,
           trackedRootKey = rootKey\<rparr>\<rparr> \<noteq> data t"
  proof
    assume "(data t)\<lparr>trackedNode := Some \<lparr>trackedId = nextId t, trackedNodeKey = nodeKey,
           trackedRootKey = rootKey\<rparr>\<rparr> = data t"
    then have "trackedNode (data t) = Some \<lparr>trackedId = nextId t, trackedNodeKey = nodeKey,
           trackedRootKey = rootKey\<rparr>"
      by (metis storeData.select_convs(4) storeData.surjective storeData.update_convs(4))
    then show False using assms(4) by (simp add: trackedFresh_def)
  qed
  then have "emitted (setTrackedNode rootKey nodeKey t) = Suc (emitted t) \<and>
         immediates (setTrackedNode rootKey nodeKey t) = clearImmediate (timer t) (immediates t)"
    by (simp add: setTrackedNode_def set'_def Let_def)
  then show ?thesis using setAll_changing[OF assms(1-3)]
    by (simp add: runImmediates_def)
qed

theorem debounced_changes_emit_once_witness:
  "pendingOk FileTreeStore \<and> rootUpdates \<noteq> [] \<and> changing rootUpdates (data FileTreeStore) \<and>
   trackedFresh (setAll rootUpdates FileTreeStore) \<and>
   immediates (setAll rootUpdates FileTreeStore) = [1] \<and>
   emitted (setAll rootUpdates FileTreeStore) = 0 \<and>
   emitted (runImmediates (setAll rootUpdates FileTreeStore)) = 1 \<and>
   emitted (setTrackedNode ''/a/'' ''/a/x'' (setAll rootUpdates FileTreeStore)) = 1 \<and>
   immediates (setTrackedNode ''/a/'' ''/a/x'' (setAll rootUpdates FileTreeStore)) = []"
proof -
  have h: "pendingOk FileTreeStore" "rootUpdates \<noteq> []" "changing rootUpdates (data FileTreeStore)"
    "trackedFresh (setAll rootUpdates FileTreeStore)"
    by (simp_all add: pendingOk_def FileTreeStore_def rootUpdates_def getDefaults_def
        trackedFresh_def setAll_def set'_def)
  have i: "immediates (setAll rootUpdates FileTreeStore) = [1]"
    "timer (setAll rootUpdates FileTreeStore) = Some 1"
    by (simp_all add: FileTreeStore_def rootUpdates_def getDefaults_def setAll_def set'_def
        clearImmediate_def)
  from debounced_changes_emit_once [OF h, of "''/a/''" "''/a/x''"] h i
  show ?thesis by (simp add: FileTreeStore_def clearImmediate_def)
qed

subsection \<open>Subscriptions\<close>

lemma nestedRootsStore_eq: "nestedRootsStore = Some nestedRootsValue"
  by code_simp

text \<open>
  Claim C2, as amended. A key that has a subscription is not watched again by
  \<^verbatim>\<open>_addSubscription\<close> and keeps its handle. \<^verbatim>\<open>_removeSubscription(root, k)\<close> does nothing
  when \<open>k\<close> has no subscription or when another registered root has \<open>k\<close> expanded;
  otherwise it disposes the handle, removes the entry and marks \<open>k\<close> dirty.
\<close>

theorem subscription_acquire_release:
  "(getProp (subscriptionMap (data s)) k \<noteq> None \<longrightarrow>
      watchCalls (addSubscription H k s) = watchCalls s \<and>
      subscriptionMap (data (addSubscription H k s)) = subscriptionMap (data s)) \<and>
   (getProp (subscriptionMap (data s)) k = None \<longrightarrow> removeSubscription r k s = s) \<and>
   (getProp (subscriptionMap (data s)) k = Some h \<longrightarrow>
      (if list_ex (\<lambda>r'. r' \<noteq> r \<and> isExpanded r' k s) (rootKeys (data s))
       then removeSubscription r k s = s
       else disposed (removeSubscription r k s) = disposed s @ [h] \<and>
            getProp (subscriptionMap (data (removeSubscription r k s))) k = None \<and>
            isDirty k (removeSubscription r k s)))"
  by (auto simp: addSubscription_def removeSubscription_def Let_def isDirty_def)

theorem subscription_acquire_release_witness:
  "getProp (subscriptionMap (data cachedTreeStore)) ''/a/d/'' = Some 12 \<and>
   watchCalls (addSubscription pathHelpers ''/a/d/'' cachedTreeStore) = watchCalls cachedTreeStore \<and>
   \<not> list_ex (\<lambda>r'. r' \<noteq> ''/a/'' \<and> isExpanded r' ''/a/d/'' cachedTreeStore)
       (rootKeys (data cachedTreeStore)) \<and>
   disposed (removeSubscription ''/a/'' ''/a/d/'' cachedTreeStore) = [12] \<and>
   isDirty ''/a/d/'' (removeSubscription ''/a/'' ''/a/d/'' cachedTreeStore) \<and>
   getProp (subscriptionMap (data cachedTreeStore)) ''/a/x/'' = None \<and>
   removeSubscription ''/a/'' ''/a/x/'' cachedTreeStore = cachedTreeStore \<and>
   getProp (subscriptionMap (data nestedRootsValue)) ''/a/b/'' = Some 5 \<and>
   list_ex (\<lambda>r'. r' \<noteq> ''/a/'' \<and> isExpanded r' ''/a/b/'' nestedRootsValue)
     (rootKeys (data nestedRootsValue)) \<and>
   removeSubscription ''/a/'' ''/a/b/'' nestedRootsValue = nestedRootsValue"
proof -
  have a: "getProp (subscriptionMap (data cachedTreeStore)) ''/a/d/'' = Some 12"
    "\<not> list_ex (\<lambda>r'. r' \<noteq> ''/a/'' \<and> isExpanded r' ''/a/d/'' cachedTreeStore)
       (rootKeys (data cachedTreeStore))"
    "disposed cachedTreeStore = []"
    by code_simp+
  have b: "getProp (subscriptionMap (data cachedTreeStore)) ''/a/x/'' = None"
    by code_simp
  have c: "getProp (subscriptionMap (data nestedRootsValue)) ''/a/b/'' = Some 5"
    "list_ex (\<lambda>r'. r' \<noteq> ''/a/'' \<and> isExpanded r' ''/a/b/'' nestedRootsValue)
       (rootKeys (data nestedRootsValue))"
    by code_simp+
  from subscription_acquire_release [of cachedTreeStore "''/a/d/''" pathHelpers "''/a/''" 12]
       subscription_acquire_release [of cachedTreeStore "''/a/x/''" pathHelpers "''/a/''" 0]
       subscription_acquire_release [of nestedRootsValue "''/a/b/''" pathHelpers "''/a/''" 5]
       a b c
  show ?thesis by simp
qed

text \<open>
  Claim C2 as stated fails in a reachable store: after \<^verbatim>\<open>/a/\<close> has been made a root and
  expanded, it is expanded under a root and has no subscription.
\<close>

theorem expanded_without_subscription:
  "map_option (isExpanded ''/a/'' ''/a/'') expandedRootStore = Some True \<and>
   map_option (getSubscription ''/a/'') expandedRootStore = Some None"
  by code_simp

subsection \<open>Fetching\<close>

lemma fetchChildKeys_pending:
  "getLoading k s = Some p \<Longrightarrow> fetchChildKeys k s = (p, s)"
  by (simp add: fetchChildKeys_def)

lemma fetchChildKeys_new:
  "getLoading k s = None \<Longrightarrow>
     getLoading k (snd (fetchChildKeys k s)) = Some (fst (fetchChildKeys k s)) \<and>
     fetchCalls (snd (fetchChildKeys k s)) = fetchCalls s @ [k] \<and>
     childKeyMap (data (snd (fetchChildKeys k s))) = childKeyMap (data s) \<and>
     isDirtyMap (data (snd (fetchChildKeys k s))) = isDirtyMap (data s)"
  by (simp add: fetchChildKeys_def Let_def getLoading_def setLoading_def)

lemma getChildKeys_uncached:
  assumes "uncached k s"
  shows "snd (getChildKeys r k s) = snd (fetchChildKeys k s)"
  using assms by (auto simp: getChildKeys_def uncached_def Let_def)

lemma getChildKeys_pending_many:
  assumes "uncached k s" "getLoading k s = Some p"
  shows "foldl (\<lambda>s r. snd (getChildKeys r k s)) s rs = s"
  using assms
  by (induction rs) (simp_all add: getChildKeys_uncached fetchChildKeys_pending)

text \<open>
  What deduplication there is rests on the loading map alone. The map keeps one entry per
  key; a fetch request for a key with an entry returns the promise of the entry and
  leaves the store as it is, so no listing call is made; a request for a key without an
  entry makes one listing call and stores the promise. Any number (at least one) of
  \<^verbatim>\<open>getChildKeys\<close> calls in a row for an uncached key without an entry make exactly one
  listing call.
\<close>

theorem fetch_deduplicated:
  "(distinct (objectKeys (isLoadingMap (data s))) \<longrightarrow>
      distinct (objectKeys (isLoadingMap (data (snd (fetchChildKeys k s)))))) \<and>
   (getLoading k s = Some p \<longrightarrow> fetchChildKeys k s = (p, s)) \<and>
   (getLoading k s = None \<longrightarrow>
      getLoading k (snd (fetchChildKeys k s)) = Some (fst (fetchChildKeys k s)) \<and>
      fetchCalls (snd (fetchChildKeys k s)) = fetchCalls s @ [k]) \<and>
   (uncached k s \<longrightarrow> getLoading k s = None \<longrightarrow> rs \<noteq> [] \<longrightarrow>
      fetchCalls (foldl (\<lambda>s r. snd (getChildKeys r k s)) s rs) = fetchCalls s @ [k])"
proof (intro conjI impI)
  assume "distinct (objectKeys (isLoadingMap (data s)))"
  then show "distinct (objectKeys (isLoadingMap (data (snd (fetchChildKeys k s)))))"
    by (auto simp: fetchChildKeys_def Let_def setLoading_def setProperty_def objectKeys_def
        distinct_update split: option.splits)
next
  assume "getLoading k s = Some p"
  then show "fetchChildKeys k s = (p, s)" by (rule fetchChildKeys_pending)
next
  assume "getLoading k s = None"
  then show "getLoading k (snd (fetchChildKeys k s)) = Some (fst (fetchChildKeys k s))"
    "fetchCalls (snd (fetchChildKeys k s)) = fetchCalls s @ [k]"
    using fetchChildKeys_new by blast+
next
  assume u: "uncached k s" and l: "getLoading k s = None" and rs: "rs \<noteq> []"
  then obtain r rs' where rs': "rs = r # rs'" by (cases rs) auto
  let ?s1 = "snd (fetchChildKeys k s)"
  have 1: "getLoading k ?s1 = Some (fst (fetchChildKeys k s))" "fetchCalls ?s1 = fetchCalls s @ [k]"
    using fetchChildKeys_new[OF l] by blast+
  have "uncached k ?s1" using u fetchChildKeys_new[OF l] by (simp add: uncached_def isDirty_def)
  then have "foldl (\<lambda>s r. snd (getChildKeys r k s)) ?s1 rs' = ?s1"
    using getChildKeys_pending_many 1(1) by blast
  then show "fetchCalls (foldl (\<lambda>s r. snd (getChildKeys r k s)) s rs) = fetchCalls s @ [k]"
    using 1(2) u by (simp add: rs' getChildKeys_uncached)
qed

theorem fetch_deduplicated_witness:
  "distinct (objectKeys (isLoadingMap (data FileTreeStore))) \<and>
   uncached ''/a/'' FileTreeStore \<and> getLoading ''/a/'' FileTreeStore = None \<and>
   [''/a/'', ''/b/''] \<noteq> [] \<and>
   getLoading ''/a/'' (snd (fetchChildKeys ''/a/'' FileTreeStore)) = Some 0 \<and>
   fetchChildKeys ''/a/'' (snd (fetchChildKeys ''/a/'' FileTreeStore))
     = (0, snd (fetchChildKeys ''/a/'' FileTreeStore)) \<and>
   fetchCalls (foldl (\<lambda>s r. snd (getChildKeys r ''/a/'' s)) FileTreeStore [''/a/'', ''/b/''])
     = [''/a/'']"
proof -
  have h: "distinct (objectKeys (isLoadingMap (data FileTreeStore)))"
    "uncached ''/a/'' FileTreeStore" "getLoading ''/a/'' FileTreeStore = None"
    "fst (fetchChildKeys ''/a/'' FileTreeStore) = 0" "fetchCalls FileTreeStore = []"
    by code_simp+
  from fetch_deduplicated [of FileTreeStore "''/a/''" 0 "[''/a/'', ''/b/'']"] h
  have 1: "getLoading ''/a/'' (snd (fetchChildKeys ''/a/'' FileTreeStore)) = Some 0"
    "fetchCalls (foldl (\<lambda>s r. snd (getChildKeys r ''/a/'' s)) FileTreeStore [''/a/'', ''/b/''])
     = [''/a/'']"
    by simp_all
  from fetch_deduplicated [of "snd (fetchChildKeys ''/a/'' FileTreeStore)" "''/a/''" 0 "[]"] 1
  show ?thesis using h by simp
qed

text \<open>
  Claim C3 fails where an entry of the loading map and a listing under way are not the
  same thing. The listing of the root \<^verbatim>\<open>/a/\<close> is requested, the root is removed, and the
  listing arrives: the handler returns without clearing the loading entry. With the root
  added and expanded again, \<^verbatim>\<open>/a/\<close> is uncached and no listing is under way, yet three
  \<^verbatim>\<open>getChildKeys\<close> calls in a row make no listing call, and the key stays without
  children. In the other direction, \<^verbatim>\<open>loadData\<close> resets the loading map while the listing
  of \<^verbatim>\<open>/a/\<close> is under way and requests the listing a second time.
\<close>

theorem stale_loading_entry_blocks_fetch:
  "map_option fetchCalls staleLoadingStore = Some [''/a/''] \<and>
   map_option (isRootKey ''/a/'') staleLoadingStore = Some True \<and>
   map_option (isExpanded ''/a/'' ''/a/'') staleLoadingStore = Some True \<and>
   map_option (uncached ''/a/'') staleLoadingStore = Some True \<and>
   map_option (getLoading ''/a/'') staleLoadingStore = Some (Some 2) \<and>
   map_option fetchCalls
     (map_option (getChildKeysAll ''/a/'' [''/a/'', ''/a/'', ''/a/'']) staleLoadingStore)
     = Some [''/a/''] \<and>
   map_option (getCachedChildKeys ''/a/'' ''/a/'')
     (map_option (getChildKeysAll ''/a/'' [''/a/'', ''/a/'', ''/a/'']) staleLoadingStore)
     = Some [] \<and>
   map_option fetchCalls loadingRootStore = Some [''/a/''] \<and>
   map_option (getLoading ''/a/'') loadingRootStore = Some (Some 2) \<and>
   map_option fetchCalls reloadedStore = Some [''/a/'', ''/a/'']"
  by code_simp

subsection \<open>Queries\<close>

text \<open>
  Claim C4 fails on the store with the nested roots: \<^verbatim>\<open>/a/b/\<close> is not expanded under the
  root \<^verbatim>\<open>/a/\<close>, and its file \<^verbatim>\<open>/a/b/f\<close> is in the nodes that \<^verbatim>\<open>getVisibleNodes\<close> returns
  for \<^verbatim>\<open>/a/\<close>. The loop asks whether the parent is expanded only before it pushes a
  directory child, not before it lists a file child.
\<close>

theorem getVisibleNodes_lists_files_of_collapsed_directory:
  "map_option (isRootKey ''/a/'') nestedRootsStore = Some True \<and>
   map_option (isExpanded ''/a/'' ''/a/b/'') nestedRootsStore = Some False \<and>
   map_option (getCachedChildKeys ''/a/'' ''/a/b/'') nestedRootsStore = Some [''/a/b/f''] \<and>
   Option.bind nestedRootsStore (getVisibleNodes pathHelpers 2 ''/a/'')
     = Some [(''/a/'', ''/a/''), (''/a/b/'', ''/a/b/''), (''/a/b/'', ''/a/b/f'')]"
  by code_simp

text \<open>
  Claim C9 fails on the store where \<^verbatim>\<open>/b/y\<close> was selected and deselected: one root has a
  non-empty selection, of one key, and \<^verbatim>\<open>getSingleSelectedNode\<close> returns null because
  \<^verbatim>\<open>selectedKeysByRoot\<close> still has the (empty) entry of the other root.
\<close>

theorem getSingleSelectedNode_counts_empty_selections:
  "rootKeys (data deselectedStore) = [''/a/'', ''/b/''] \<and>
   getSelectedKeys ''/a/'' deselectedStore = [''/a/x''] \<and>
   getSelectedKeys ''/b/'' deselectedStore = [] \<and>
   getSingleSelectedNode deselectedStore = None"
  by code_simp

subsection \<open>Export and import\<close>

lemma foldl_add: "set (foldl add acc ks) = set acc \<union> set ks"
  by (induction ks arbitrary: acc) (auto simp: add_def has_def)

lemma foldl_add_distinct: "distinct (acc @ ks) \<Longrightarrow> foldl add acc ks = acc @ ks"
  by (induction ks arbitrary: acc) (auto simp: add_def has_def)

lemma set_newSet [simp]: "set (newSet ks) = set ks"
  by (simp add: newSet_def foldl_add)

lemma newSet_distinct: "distinct ks \<Longrightarrow> newSet ks = ks"
  using foldl_add_distinct[of "[]" ks] by (simp add: newSet_def)

lemma getProp_mapValues: "getProp (mapValues m f) k = map_option (\<lambda>v. f v k) (getProp m k)"
  by (induction m) (auto simp: getProp_def mapValues_def)

lemma objectKeys_mapValues [simp]: "objectKeys (mapValues m f) = objectKeys m"
  by (induction m) (auto simp: objectKeys_def mapValues_def)

lemma mapValues_roundtrip:
  "list_all (\<lambda>(r, keySet). distinct keySet) m \<Longrightarrow>
     mapValues (mapValues m (\<lambda>keySet _. toArray keySet)) (\<lambda>keys _. newSet keys) = m"
  by (induction m) (auto simp: mapValues_def toArray_def newSet_distinct)

lemma fetchChildKeys_data:
  "\<exists>L. data (snd (fetchChildKeys k s)) = (data s)\<lparr>isLoadingMap := L\<rparr>"
proof (cases "getLoading k s")
  case None
  then have "data (snd (fetchChildKeys k s))
      = (data s)\<lparr>isLoadingMap := setProperty (isLoadingMap (data s)) k (nextId s)\<rparr>"
    by (simp add: fetchChildKeys_def Let_def setLoading_def)
  then show ?thesis by blast
next
  case (Some p)
  then have "data (snd (fetchChildKeys k s)) = (data s)\<lparr>isLoadingMap := isLoadingMap (data s)\<rparr>"
    by (simp add: fetchChildKeys_def)
  then show ?thesis by blast
qed

lemma loadData_step:
  "rootKeys (data (snd (fetchChildKeys k (addSubscription H k t)))) = rootKeys (data t) \<and>
   expandedKeysByRoot (data (snd (fetchChildKeys k (addSubscription H k t)))) = expandedKeysByRoot (data t) \<and>
   selectedKeysByRoot (data (snd (fetchChildKeys k (addSubscription H k t)))) = selectedKeysByRoot (data t)"
proof -
  obtain L where "data (snd (fetchChildKeys k (addSubscription H k t)))
      = (data (addSubscription H k t))\<lparr>isLoadingMap := L\<rparr>"
    using fetchChildKeys_data by blast
  moreover obtain D S where "data (addSubscription H k t) = (data t)\<lparr>isDirtyMap := D, subscriptionMap := S\<rparr>"
    using addSubscription_data by blast
  ultimately show ?thesis by simp
qed

lemma loadData_frame:
  assumes "version imported = VERSION"
  shows "rootKeys (data (loadData H imported s0)) = exRootKeys imported \<and>
     expandedKeysByRoot (data (loadData H imported s0))
       = mapValues (exExpandedKeysByRoot imported) (\<lambda>keys _. newSet keys) \<and>
     selectedKeysByRoot (data (loadData H imported s0))
       = mapValues (exSelectedKeysByRoot imported) (\<lambda>keys _. newSet keys)"
proof -
  let ?E = "mapValues (exExpandedKeysByRoot imported) (\<lambda>keys _. newSet keys)"
  let ?S = "mapValues (exSelectedKeysByRoot imported) (\<lambda>keys _. newSet keys)"
  let ?P = "\<lambda>t :: storeData store. rootKeys (data t) = exRootKeys imported \<and>
     expandedKeysByRoot (data t) = ?E \<and> selectedKeysByRoot (data t) = ?S"
  have "?P (foldl (\<lambda>s nodeKey. snd (fetchChildKeys nodeKey (addSubscription H nodeKey s)))
          (s0\<lparr>data := getDefaults
                     \<lparr> childKeyMap :=
                         List.map_filter (\<lambda>(k, v). map_option (\<lambda>childKeys. (k, childKeys)) v)
                           (exChildKeyMap imported),
                       expandedKeysByRoot := ?E,
                       rootKeys := exRootKeys imported,
                       selectedKeysByRoot := ?S \<rparr>\<rparr>)
          (objectKeys (exChildKeyMap imported)))"
    by (rule foldl_invariant[where P = ?P]) (simp_all add: loadData_step)
  then show ?thesis using assms by (simp add: loadData_def Let_def)
qed

text \<open>
  Claim C7. Loading data whose version is not the current one leaves the store as it
  is. Loading what \<^verbatim>\<open>exportData\<close> returned for a store gives the same root list, the same
  roots with an expansion or selection entry, and the same expanded and selected keys
  under every root; when the sets of the exporting store are proper sets, the expansion
  and selection maps are equal to the exported store's.
\<close>

theorem export_load_roundtrip:
  "(version imported \<noteq> VERSION \<longrightarrow> loadData H imported s0 = s0) \<and>
   rootKeys (data (loadData H (exportData s) s0)) = rootKeys (data s) \<and>
   objectKeys (expandedKeysByRoot (data (loadData H (exportData s) s0)))
     = objectKeys (expandedKeysByRoot (data s)) \<and>
   objectKeys (selectedKeysByRoot (data (loadData H (exportData s) s0)))
     = objectKeys (selectedKeysByRoot (data s)) \<and>
   isExpanded r k (loadData H (exportData s) s0) = isExpanded r k s \<and>
   isSelected r k (loadData H (exportData s) s0) = isSelected r k s \<and>
   (properSets s \<longrightarrow>
      expandedKeysByRoot (data (loadData H (exportData s) s0)) = expandedKeysByRoot (data s) \<and>
      selectedKeysByRoot (data (loadData H (exportData s) s0)) = selectedKeysByRoot (data s))"
proof -
  have v: "version (exportData s) = VERSION" by (simp add: exportData_def Let_def)
  note fr = loadData_frame[OF v, of H s0]
  have ex: "exRootKeys (exportData s) = rootKeys (data s)"
    "exExpandedKeysByRoot (exportData s) = mapValues (expandedKeysByRoot (data s)) (\<lambda>keySet _. toArray keySet)"
    "exSelectedKeysByRoot (exportData s) = mapValues (selectedKeysByRoot (data s)) (\<lambda>keySet _. toArray keySet)"
    by (simp_all add: exportData_def Let_def)
  have e: "isExpanded r k (loadData H (exportData s) s0) = isExpanded r k s"
    by (cases "getProp (expandedKeysByRoot (data s)) r")
       (simp_all add: isExpanded_def getExpandedKeys_def fr ex getProp_mapValues has_def toArray_def)
  have sl: "isSelected r k (loadData H (exportData s) s0) = isSelected r k s"
    by (cases "getProp (selectedKeysByRoot (data s)) r")
       (simp_all add: isSelected_def getSelectedKeys_def fr ex getProp_mapValues has_def toArray_def)
  have m: "version imported \<noteq> VERSION \<longrightarrow> loadData H imported s0 = s0"
    by (simp add: loadData_def)
  have p: "properSets s \<longrightarrow>
      expandedKeysByRoot (data (loadData H (exportData s) s0)) = expandedKeysByRoot (data s) \<and>
      selectedKeysByRoot (data (loadData H (exportData s) s0)) = selectedKeysByRoot (data s)"
    by (simp add: fr ex properSets_def mapValues_roundtrip)
  have o: "rootKeys (data (loadData H (exportData s) s0)) = rootKeys (data s)"
    "objectKeys (expandedKeysByRoot (data (loadData H (exportData s) s0)))
       = objectKeys (expandedKeysByRoot (data s))"
    "objectKeys (selectedKeysByRoot (data (loadData H (exportData s) s0)))
       = objectKeys (selectedKeysByRoot (data s))"
    by (simp_all add: fr ex)
  show ?thesis using m o e sl p by blast
qed

theorem export_load_roundtrip_witness:
  "version ((exportData cachedTreeStore)\<lparr>version := 2\<rparr>) \<noteq> VERSION \<and>
   loadData pathHelpers ((exportData cachedTreeStore)\<lparr>version := 2\<rparr>) FileTreeStore
     = FileTreeStore \<and>
   properSets cachedTreeStore \<and>
   rootKeys (data (loadData pathHelpers (exportData cachedTreeStore) FileTreeStore)) = [''/a/''] \<and>
   expandedKeysByRoot (data (loadData pathHelpers (exportData cachedTreeStore) FileTreeStore))
     = [(''/a/'', [''/a/'', ''/a/d/''])] \<and>
   selectedKeysByRoot (data (loadData pathHelpers (exportData cachedTreeStore) FileTreeStore))
     = [(''/a/'', [''/a/d/f'', ''/a/d/e/''])]"
proof -
  have v: "version ((exportData cachedTreeStore)\<lparr>version := 2\<rparr>) \<noteq> VERSION"
    by (simp add: VERSION_def)
  have p: "properSets cachedTreeStore"
    by (simp add: properSets_def cachedTreeStore_def)
  have d: "rootKeys (data cachedTreeStore) = [''/a/'']"
    "expandedKeysByRoot (data cachedTreeStore) = [(''/a/'', [''/a/'', ''/a/d/''])]"
    "selectedKeysByRoot (data cachedTreeStore) = [(''/a/'', [''/a/d/f'', ''/a/d/e/''])]"
    by (simp_all add: cachedTreeStore_def)
  from export_load_roundtrip
         [of "(exportData cachedTreeStore)\<lparr>version := 2\<rparr>" pathHelpers FileTreeStore] v
  have 1: "loadData pathHelpers ((exportData cachedTreeStore)\<lparr>version := 2\<rparr>) FileTreeStore
     = FileTreeStore" by blast
  from export_load_roundtrip
         [of "exportData cachedTreeStore" pathHelpers FileTreeStore cachedTreeStore] p d
  have 2: "rootKeys (data (loadData pathHelpers (exportData cachedTreeStore) FileTreeStore)) = [''/a/'']"
    "expandedKeysByRoot (data (loadData pathHelpers (exportData cachedTreeStore) FileTreeStore))
       = [(''/a/'', [''/a/'', ''/a/d/''])]"
    "selectedKeysByRoot (data (loadData pathHelpers (exportData cachedTreeStore) FileTreeStore))
       = [(''/a/'', [''/a/d/f'', ''/a/d/e/''])]"
    by simp_all
  show ?thesis using v p 1 2 by blast
qed

subsection \<open>Collapsing\<close>

lemma collapseFrame_refl [simp]: "collapseFrame r s s"
  by (simp add: collapseFrame_def)

lemma collapseFrame_trans: "collapseFrame r s t \<Longrightarrow> collapseFrame r t u \<Longrightarrow> collapseFrame r s u"
  unfolding collapseFrame_def by auto

lemma isExpanded_expandedSet: "isExpanded r k s \<longleftrightarrow> k \<in> expandedSet r s"
  by (simp add: isExpanded_def expandedSet_def has_def)

lemma setSelectedKeys_keeps:
  "expandedKeysByRoot (data (setSelectedKeys r ks s)) = expandedKeysByRoot (data s)"
  "previouslyExpanded (data (setSelectedKeys r ks s)) = previouslyExpanded (data s)"
  "childKeyMap (data (setSelectedKeys r ks s)) = childKeyMap (data s)"
  "rootKeys (data (setSelectedKeys r ks s)) = rootKeys (data s)"
  "isLoadingMap (data (setSelectedKeys r ks s)) = isLoadingMap (data s)"
  "vcsStatusesByRoot (data (setSelectedKeys r ks s)) = vcsStatusesByRoot (data s)"
  "errorLog (setSelectedKeys r ks s) = errorLog s" "fetchCalls (setSelectedKeys r ks s) = fetchCalls s"
  "watchCalls (setSelectedKeys r ks s) = watchCalls s"
  by (simp_all add: setSelectedKeys_def)

lemma removeSubscription_keeps:
  "expandedKeysByRoot (data (removeSubscription r k s)) = expandedKeysByRoot (data s)"
  "previouslyExpanded (data (removeSubscription r k s)) = previouslyExpanded (data s)"
  "childKeyMap (data (removeSubscription r k s)) = childKeyMap (data s)"
  "rootKeys (data (removeSubscription r k s)) = rootKeys (data s)"
  "isLoadingMap (data (removeSubscription r k s)) = isLoadingMap (data s)"
  "vcsStatusesByRoot (data (removeSubscription r k s)) = vcsStatusesByRoot (data s)"
  "errorLog (removeSubscription r k s) = errorLog s" "fetchCalls (removeSubscription r k s) = fetchCalls s"
  "watchCalls (removeSubscription r k s) = watchCalls s"
  by (simp_all add: removeSubscription_def Let_def split: option.splits)

lemma collapseSelf_expandedSet [simp]:
  "expandedSet r (collapseSelf r x ecs s) = expandedSet r s - {x}"
  by (auto simp: collapseSelf_def Let_def expandedSet_def removeSubscription_keeps
      getExpandedKeys_def setExpandedKeys_def delete_def setPreviouslyExpanded_def split: option.splits)

lemma collapseSelf_prevEntry [simp]:
  "prevEntry r (collapseSelf r x ecs s) y =
     (if y = x then (if ecs \<noteq> [] then Some ecs else None) else prevEntry r s y)"
  by (simp add: collapseSelf_def Let_def prevEntry_def removeSubscription_keeps setExpandedKeys_def
      getPreviouslyExpanded_def setPreviouslyExpanded_def)

lemma collapseSelf_frame: "collapseFrame r s (collapseSelf r x ecs s)"
  unfolding collapseFrame_def
  by (auto simp: collapseSelf_def Let_def removeSubscription_keeps setExpandedKeys_def
       expandedSet_def getExpandedKeys_def delete_def setPreviouslyExpanded_def split: option.splits)

lemma unselectChild_keeps [simp]:
  "expandedSet r (unselectChild r c sel s) = expandedSet r s"
  "prevEntry r (unselectChild r c sel s) y = prevEntry r s y"
  "childKeyMap (data (unselectChild r c sel s)) = childKeyMap (data s)"
  by (simp_all add: unselectChild_def expandedSet_def prevEntry_def getExpandedKeys_def
      getPreviouslyExpanded_def setSelectedKeys_keeps split: option.splits)

lemma unselectChild_frame: "collapseFrame r s (unselectChild r c sel s)"
  by (simp add: collapseFrame_def unselectChild_def setSelectedKeys_keeps expandedSet_def
      getExpandedKeys_def split: option.splits)

lemma collapse_frame:
  "collapseNode H n r x s = Some s' \<longrightarrow> collapseFrame r s s' \<and> x \<notin> expandedSet r s'"
  "collapseChildKeys H n r cs sel acc s = Some (ecs, s') \<longrightarrow> collapseFrame r s s'"
proof (induction H n r x s and H n r cs sel acc s arbitrary: s' and ecs s'
       rule: collapseNode_collapseChildKeys.induct)
  case (1 H rootKey nodeKey s)
  show ?case by simp
next
  case (2 H n rootKey nodeKey s)
  show ?case
  proof
    assume run: "collapseNode H (Suc n) rootKey nodeKey s = Some s'"
    show "collapseFrame rootKey s s' \<and> nodeKey \<notin> expandedSet rootKey s'"
    proof (cases "getProp (childKeyMap (data s)) nodeKey")
      case None
      with run have "s' = collapseSelf rootKey nodeKey [] s" by simp
      then show ?thesis using collapseSelf_frame by simp
    next
      case (Some childKeys)
      with run obtain ecs s1 where l: "collapseChildKeys H n rootKey childKeys
            (getProp (selectedKeysByRoot (data s)) rootKey) [] s = Some (ecs, s1)"
        and s': "s' = collapseSelf rootKey nodeKey ecs s1"
        by (auto split: option.splits)
      from "2.IH"[OF Some] l have "collapseFrame rootKey s s1" by blast
      then show ?thesis unfolding s' using collapseSelf_frame collapseFrame_trans by auto
    qed
  qed
next
  case (3 H n rootKey selectedKeys expandedChildKeys s)
  show ?case by auto
next
  case (4 H n rootKey childKey childKeys selectedKeys expandedChildKeys s)
  let ?sa = "unselectChild rootKey childKey selectedKeys s"
  show ?case
  proof
    assume run: "collapseChildKeys H n rootKey (childKey # childKeys) selectedKeys expandedChildKeys s
                 = Some (ecs, s')"
    show "collapseFrame rootKey s s'"
    proof (cases "isDirKey H childKey \<and> isExpanded rootKey childKey ?sa")
      case True
      with run obtain s2 where c: "collapseNode H n rootKey childKey ?sa = Some s2"
        and rest: "collapseChildKeys H n rootKey childKeys (unselected childKey selectedKeys)
                     (expandedChildKeys @ [childKey]) s2 = Some (ecs, s')"
        by (auto split: option.splits)
      have "collapseFrame rootKey ?sa s2" using "4.IH"(1)[OF True] c by blast
      moreover have "collapseFrame rootKey s2 s'" using "4.IH"(2)[OF True c] rest by blast
      ultimately show ?thesis using unselectChild_frame collapseFrame_trans by blast
    next
      case False
      with run have rest: "collapseChildKeys H n rootKey childKeys (unselected childKey selectedKeys)
                     expandedChildKeys ?sa = Some (ecs, s')"
        by (auto split: option.splits)
      have "collapseFrame rootKey ?sa s'" using "4.IH"(3)[OF False] rest by blast
      then show ?thesis using unselectChild_frame collapseFrame_trans by blast
    qed
  qed
qed

lemma collapse_enough_fuel:
  assumes proper: "\<And>k cs c. getProp cm0 k = Some cs \<Longrightarrow> c \<in> set cs
                      \<Longrightarrow> length k < length c \<and> length c \<le> L"
  shows "childKeyMap (data s) = cm0 \<longrightarrow> L - length x < n \<longrightarrow> collapseNode H n r x s \<noteq> None"
    and "childKeyMap (data s) = cm0 \<longrightarrow> (\<forall>c \<in> set cs. L - length c < n) \<longrightarrow>
           collapseChildKeys H n r cs sel acc s \<noteq> None"
proof (induction H n r x s and H n r cs sel acc s rule: collapseNode_collapseChildKeys.induct)
  case (1 H rootKey nodeKey s)
  show ?case by simp
next
  case (2 H n rootKey nodeKey s)
  show ?case
  proof (intro impI)
    assume cm: "childKeyMap (data s) = cm0" and n: "L - length nodeKey < Suc n"
    show "collapseNode H (Suc n) rootKey nodeKey s \<noteq> None"
    proof (cases "getProp (childKeyMap (data s)) nodeKey")
      case None
      then show ?thesis by simp
    next
      case (Some childKeys)
      have "\<forall>c \<in> set childKeys. L - length c < n"
      proof
        fix c assume "c \<in> set childKeys"
        then have "length nodeKey < length c \<and> length c \<le> L" using proper Some cm by blast
        then show "L - length c < n" using n by linarith
      qed
      then have "collapseChildKeys H n rootKey childKeys
            (getProp (selectedKeysByRoot (data s)) rootKey) [] s \<noteq> None"
        using "2.IH"[OF Some] cm by blast
      then show ?thesis using Some by (auto split: option.splits)
    qed
  qed
next
  case (3 H n rootKey selectedKeys expandedChildKeys s)
  show ?case by simp
next
  case (4 H n rootKey childKey childKeys selectedKeys expandedChildKeys s)
  let ?sa = "unselectChild rootKey childKey selectedKeys s"
  show ?case
  proof (intro impI)
    assume cm: "childKeyMap (data s) = cm0"
      and n: "\<forall>c \<in> set (childKey # childKeys). L - length c < n"
    have cma: "childKeyMap (data ?sa) = cm0" using cm by simp
    show "collapseChildKeys H n rootKey (childKey # childKeys) selectedKeys expandedChildKeys s \<noteq> None"
    proof (cases "isDirKey H childKey \<and> isExpanded rootKey childKey ?sa")
      case True
      have "collapseNode H n rootKey childKey ?sa \<noteq> None"
        using "4.IH"(1)[OF True] cma n by simp
      then obtain s2 where c: "collapseNode H n rootKey childKey ?sa = Some s2" by auto
      then have "childKeyMap (data s2) = cm0"
        using collapse_frame(1)[of H n rootKey childKey ?sa s2] cma by (simp add: collapseFrame_def)
      then have "collapseChildKeys H n rootKey childKeys (unselected childKey selectedKeys)
                     (expandedChildKeys @ [childKey]) s2 \<noteq> None"
        using "4.IH"(2)[OF True c] n by simp
      then show ?thesis using True c by simp
    next
      case False
      have "collapseChildKeys H n rootKey childKeys (unselected childKey selectedKeys)
                     expandedChildKeys ?sa \<noteq> None"
        using "4.IH"(3)[OF False] cma n by simp
      then show ?thesis using False by auto
    qed
  qed
qed

lemma collapseNode_total:
  assumes "properChildren s"
  shows "\<exists>n. collapseNode H n r x s \<noteq> None"
proof -
  obtain L where L: "\<forall>k cs c. getProp (childKeyMap (data s)) k = Some cs \<longrightarrow> c \<in> set cs \<longrightarrow> length c \<le> L"
    using childKey_bound by blast
  have "collapseNode H (Suc L) r x s \<noteq> None"
    using collapse_enough_fuel(1)[of "childKeyMap (data s)" L s x "Suc L" H r]
      properChildren_getProp[OF assms] L by fastforce
  then show ?thesis by blast
qed



subsection \<open>Collapsing and expanding again\<close>

lemma collapseFrame_E: "collapseFrame r s t \<Longrightarrow> expandedSet r t \<subseteq> expandedSet r s"
  by (simp add: collapseFrame_def)

lemma collapseFrame_cm: "collapseFrame r s t \<Longrightarrow> childKeyMap (data t) = childKeyMap (data s)"
  by (simp add: collapseFrame_def)

lemma expandedPath_mono:
  assumes "expandedPath H r t z x" "childKeyMap (data t) = childKeyMap (data s)"
    "expandedSet r t \<subseteq> expandedSet r s"
  shows "expandedPath H r s z x"
  using assms
proof (induction rule: expandedPath.induct)
  case (here x)
  show ?case by (rule expandedPath.here)
next
  case (down z childKeys c x)
  then show ?case by (intro expandedPath.down[of s z childKeys c]) auto
qed

lemma collapse_prev:
  "collapseNode H n r x s = Some s' \<longrightarrow>
     (\<forall>y. y \<notin> expandedSet r s - expandedSet r s' \<and> y \<noteq> x \<longrightarrow> prevEntry r s' y = prevEntry r s y)"
  "collapseChildKeys H n r cs sel acc s = Some (ecs, s') \<longrightarrow>
     (\<forall>y. y \<notin> expandedSet r s - expandedSet r s' \<longrightarrow> prevEntry r s' y = prevEntry r s y) \<and>
     (\<exists>new. ecs = acc @ new \<and> (new = [] \<longrightarrow> expandedSet r s' = expandedSet r s))"
proof (induction H n r x s and H n r cs sel acc s arbitrary: s' and ecs s'
       rule: collapseNode_collapseChildKeys.induct)
  case (1 H rootKey nodeKey s)
  show ?case by simp
next
  case (2 H n rootKey nodeKey s)
  show ?case
  proof (intro impI allI)
    fix y
    assume run: "collapseNode H (Suc n) rootKey nodeKey s = Some s'"
      and y: "y \<notin> expandedSet rootKey s - expandedSet rootKey s' \<and> y \<noteq> nodeKey"
    show "prevEntry rootKey s' y = prevEntry rootKey s y"
    proof (cases "getProp (childKeyMap (data s)) nodeKey")
      case None
      with run have "s' = collapseSelf rootKey nodeKey [] s" by simp
      then show ?thesis using y by simp
    next
      case (Some childKeys)
      with run obtain ecs s1 where l: "collapseChildKeys H n rootKey childKeys
            (getProp (selectedKeysByRoot (data s)) rootKey) [] s = Some (ecs, s1)"
        and s': "s' = collapseSelf rootKey nodeKey ecs s1"
        by (auto split: option.splits)
      have "y \<notin> expandedSet rootKey s - expandedSet rootKey s1" using y by (auto simp: s')
      then have "prevEntry rootKey s1 y = prevEntry rootKey s y" using "2.IH"[OF Some] l by blast
      then show ?thesis using y by (simp add: s')
    qed
  qed
next
  case (3 H n rootKey selectedKeys expandedChildKeys s)
  show ?case by auto
next
  case (4 H n rootKey childKey childKeys selectedKeys expandedChildKeys s)
  let ?sa = "unselectChild rootKey childKey selectedKeys s"
  show ?case
  proof
    assume run: "collapseChildKeys H n rootKey (childKey # childKeys) selectedKeys expandedChildKeys s
                 = Some (ecs, s')"
    show "(\<forall>y. y \<notin> expandedSet rootKey s - expandedSet rootKey s' \<longrightarrow>
               prevEntry rootKey s' y = prevEntry rootKey s y) \<and>
          (\<exists>new. ecs = expandedChildKeys @ new \<and>
               (new = [] \<longrightarrow> expandedSet rootKey s' = expandedSet rootKey s))"
    proof (cases "isDirKey H childKey \<and> isExpanded rootKey childKey ?sa")
      case True
      with run obtain sb where c: "collapseNode H n rootKey childKey ?sa = Some sb"
        and rest: "collapseChildKeys H n rootKey childKeys (unselected childKey selectedKeys)
                     (expandedChildKeys @ [childKey]) sb = Some (ecs, s')"
        by (auto split: option.splits)
      note i1 = "4.IH"(1)[OF True, of sb]
      note i2 = "4.IH"(2)[OF True c, of ecs s']
      have e1: "expandedSet rootKey sb \<subseteq> expandedSet rootKey s" "childKey \<notin> expandedSet rootKey sb"
        using collapse_frame(1)[of H n rootKey childKey ?sa sb] c collapseFrame_E by fastforce+
      have e2: "expandedSet rootKey s' \<subseteq> expandedSet rootKey sb"
        using collapse_frame(2) rest collapseFrame_E by blast
      have cE: "childKey \<in> expandedSet rootKey s" using True by (simp add: isExpanded_expandedSet)
      have "prevEntry rootKey s' y = prevEntry rootKey s y"
        if y: "y \<notin> expandedSet rootKey s - expandedSet rootKey s'" for y
      proof -
        have "y \<noteq> childKey" using y cE e1 e2 by auto
        moreover have "y \<notin> expandedSet rootKey ?sa - expandedSet rootKey sb" using y e2 by auto
        ultimately have "prevEntry rootKey sb y = prevEntry rootKey ?sa y" using i1 c by blast
        moreover have "y \<notin> expandedSet rootKey sb - expandedSet rootKey s'" using y e1 by auto
        then have "prevEntry rootKey s' y = prevEntry rootKey sb y" using i2 rest by blast
        ultimately show ?thesis by simp
      qed
      moreover obtain new where "ecs = (expandedChildKeys @ [childKey]) @ new"
        using i2 rest by blast
      then have "ecs = expandedChildKeys @ (childKey # new)" by simp
      ultimately show ?thesis by blast
    next
      case False
      with run have rest: "collapseChildKeys H n rootKey childKeys (unselected childKey selectedKeys)
                     expandedChildKeys ?sa = Some (ecs, s')"
        by (auto split: option.splits)
      from "4.IH"(3)[OF False, of ecs s'] rest show ?thesis by simp
    qed
  qed
qed

lemma collapse_path:
  "collapseNode H n r z s = Some s' \<longrightarrow> x \<in> expandedSet r s \<longrightarrow> x \<notin> expandedSet r s' \<longrightarrow>
     expandedPath H r s z x"
  "collapseChildKeys H n r cs sel acc s = Some (ecs, s') \<longrightarrow> x \<in> expandedSet r s \<longrightarrow>
     x \<notin> expandedSet r s' \<longrightarrow>
     (\<exists>c \<in> set cs. isDirKey H c \<and> c \<in> expandedSet r s \<and> expandedPath H r s c x)"
proof (induction H n r z s and H n r cs sel acc s arbitrary: s' and ecs s'
       rule: collapseNode_collapseChildKeys.induct)
  case (1 H rootKey nodeKey s)
  show ?case by simp
next
  case (2 H n rootKey nodeKey s)
  show ?case
  proof (intro impI)
    assume run: "collapseNode H (Suc n) rootKey nodeKey s = Some s'"
      and x: "x \<in> expandedSet rootKey s" "x \<notin> expandedSet rootKey s'"
    show "expandedPath H rootKey s nodeKey x"
    proof (cases "getProp (childKeyMap (data s)) nodeKey")
      case None
      with run have "s' = collapseSelf rootKey nodeKey [] s" by simp
      then have "x = nodeKey" using x by simp
      then show ?thesis by (simp add: expandedPath.here)
    next
      case (Some childKeys)
      with run obtain ecs s1 where l: "collapseChildKeys H n rootKey childKeys
            (getProp (selectedKeysByRoot (data s)) rootKey) [] s = Some (ecs, s1)"
        and s': "s' = collapseSelf rootKey nodeKey ecs s1"
        by (auto split: option.splits)
      show ?thesis
      proof (cases "x = nodeKey")
        case True
        then show ?thesis by (simp add: expandedPath.here)
      next
        case False
        then have "x \<notin> expandedSet rootKey s1" using x by (simp add: s')
        then obtain c where "c \<in> set childKeys" "isDirKey H c" "c \<in> expandedSet rootKey s"
          "expandedPath H rootKey s c x"
          using "2.IH"[OF Some, of ecs s1] l x(1) by blast
        then show ?thesis using Some by (intro expandedPath.down[of s nodeKey childKeys c]) auto
      qed
    qed
  qed
next
  case (3 H n rootKey selectedKeys expandedChildKeys s)
  show ?case by auto
next
  case (4 H n rootKey childKey childKeys selectedKeys expandedChildKeys s)
  let ?sa = "unselectChild rootKey childKey selectedKeys s"
  have mono_a: "expandedPath H rootKey ?sa c x \<Longrightarrow> expandedPath H rootKey s c x" for c
    by (erule expandedPath_mono) simp_all
  show ?case
  proof (intro impI)
    assume run: "collapseChildKeys H n rootKey (childKey # childKeys) selectedKeys expandedChildKeys s
                 = Some (ecs, s')"
      and x: "x \<in> expandedSet rootKey s" "x \<notin> expandedSet rootKey s'"
    show "\<exists>c\<in>set (childKey # childKeys). isDirKey H c \<and> c \<in> expandedSet rootKey s \<and>
             expandedPath H rootKey s c x"
    proof (cases "isDirKey H childKey \<and> isExpanded rootKey childKey ?sa")
      case True
      with run obtain sb where c: "collapseNode H n rootKey childKey ?sa = Some sb"
        and rest: "collapseChildKeys H n rootKey childKeys (unselected childKey selectedKeys)
                     (expandedChildKeys @ [childKey]) sb = Some (ecs, s')"
        by (auto split: option.splits)
      have fr: "collapseFrame rootKey ?sa sb" using collapse_frame(1) c by blast
      show ?thesis
      proof (cases "x \<in> expandedSet rootKey sb")
        case False
        then have "expandedPath H rootKey ?sa childKey x"
          using "4.IH"(1)[OF True, of sb] c x(1) by simp
        then show ?thesis using True mono_a by (auto simp: isExpanded_expandedSet)
      next
        case xb: True
        then obtain c' where c': "c' \<in> set childKeys" "isDirKey H c'" "c' \<in> expandedSet rootKey sb"
          "expandedPath H rootKey sb c' x"
          using "4.IH"(2)[OF True c, of ecs s'] rest x(2) by blast
        have "expandedPath H rootKey ?sa c' x"
          using c'(4) fr by (intro expandedPath_mono[of H rootKey sb c' x ?sa])
            (simp_all add: collapseFrame_def)
        then have "expandedPath H rootKey s c' x" by (rule mono_a)
        moreover have "c' \<in> expandedSet rootKey s" using c'(3) fr collapseFrame_E by fastforce
        ultimately show ?thesis using c' by auto
      qed
    next
      case False
      with run have rest: "collapseChildKeys H n rootKey childKeys (unselected childKey selectedKeys)
                     expandedChildKeys ?sa = Some (ecs, s')"
        by (auto split: option.splits)
      then obtain c' where c': "c' \<in> set childKeys" "isDirKey H c'" "c' \<in> expandedSet rootKey ?sa"
          "expandedPath H rootKey ?sa c' x"
        using "4.IH"(3)[OF False, of ecs s'] x by auto
      then show ?thesis using mono_a by auto
    qed
  qed
qed

lemma collapse_cycle:
  assumes closed: "\<And>a. a \<in> A \<Longrightarrow>
     \<exists>cs c. getProp cm0 a = Some cs \<and> c \<in> set cs \<and> isDirKey H c \<and> c \<in> A"
  shows "(\<forall>s y. childKeyMap (data s) = cm0 \<longrightarrow> A \<subseteq> expandedSet r s \<longrightarrow> y \<in> A \<longrightarrow>
            collapseNode H n r y s = None) \<and>
         (\<forall>s z s2. childKeyMap (data s) = cm0 \<longrightarrow> A \<subseteq> expandedSet r s \<longrightarrow>
            collapseNode H n r z s = Some s2 \<longrightarrow> A \<subseteq> expandedSet r s2)"
proof (induction n)
  case 0
  show ?case by simp
next
  case (Suc n)
  have keep: "childKeyMap (data s) = cm0 \<Longrightarrow> A \<subseteq> expandedSet r s \<Longrightarrow>
      collapseChildKeys H n r cs sel acc s = Some (ecs, s2) \<Longrightarrow> A \<subseteq> expandedSet r s2"
    for cs sel acc s ecs s2
  proof (induction cs arbitrary: sel acc s)
    case Nil
    then show ?case by simp
  next
    case (Cons c cs)
    let ?sa = "unselectChild r c sel s"
    have a: "childKeyMap (data ?sa) = cm0" "A \<subseteq> expandedSet r ?sa" using Cons.prems by simp_all
    show ?case
    proof (cases "isDirKey H c \<and> isExpanded r c ?sa")
      case True
      with Cons.prems(3) obtain sb where c: "collapseNode H n r c ?sa = Some sb"
        and rest: "collapseChildKeys H n r cs (unselected c sel) (acc @ [c]) sb = Some (ecs, s2)"
        by (auto split: option.splits)
      have "A \<subseteq> expandedSet r sb" using Suc.IH a c by blast
      moreover have "childKeyMap (data sb) = cm0"
        using collapse_frame(1)[of H n r c ?sa sb] c a(1) by (simp add: collapseFrame_def)
      ultimately show ?thesis using Cons.IH rest by blast
    next
      case False
      with Cons.prems(3) have "collapseChildKeys H n r cs (unselected c sel) acc ?sa = Some (ecs, s2)"
        by (auto split: option.splits)
      then show ?thesis using Cons.IH a by blast
    qed
  qed
  have loop: "childKeyMap (data s) = cm0 \<Longrightarrow> A \<subseteq> expandedSet r s \<Longrightarrow>
      \<exists>c \<in> set cs. isDirKey H c \<and> c \<in> A \<Longrightarrow> collapseChildKeys H n r cs sel acc s = None"
    for cs sel acc s
  proof (induction cs arbitrary: sel acc s)
    case Nil
    then show ?case by simp
  next
    case (Cons c cs)
    let ?sa = "unselectChild r c sel s"
    have a: "childKeyMap (data ?sa) = cm0" "A \<subseteq> expandedSet r ?sa" using Cons.prems by simp_all
    show ?case
    proof (cases "isDirKey H c \<and> isExpanded r c ?sa")
      case True
      show ?thesis
      proof (cases "collapseNode H n r c ?sa")
        case None
        then show ?thesis using True by simp
      next
        case (Some sb)
        then have "c \<notin> A" using Suc.IH a by force
        then have ex: "\<exists>c \<in> set cs. isDirKey H c \<and> c \<in> A" using Cons.prems(3) by auto
        have "A \<subseteq> expandedSet r sb" using Suc.IH a Some by blast
        moreover have "childKeyMap (data sb) = cm0"
          using collapse_frame(1)[of H n r c ?sa sb] Some a(1) by (simp add: collapseFrame_def)
        ultimately have "collapseChildKeys H n r cs (unselected c sel) (acc @ [c]) sb = None"
          using Cons.IH ex by blast
        then show ?thesis using True Some by simp
      qed
    next
      case False
      then have "c \<notin> A \<or> \<not> isDirKey H c" using a(2) by (auto simp: isExpanded_expandedSet)
      then have ex: "\<exists>c \<in> set cs. isDirKey H c \<and> c \<in> A" using Cons.prems(3) by auto
      have "collapseChildKeys H n r cs (unselected c sel) acc ?sa = None"
        using Cons.IH a ex by blast
      then show ?thesis using False by auto
    qed
  qed
  have P: "collapseNode H (Suc n) r y s = None"
    if h: "childKeyMap (data s) = cm0" "A \<subseteq> expandedSet r s" "y \<in> A" for s y
  proof -
    obtain cs c where cs: "getProp cm0 y = Some cs" "c \<in> set cs" "isDirKey H c" "c \<in> A"
      using closed h(3) by blast
    then have "collapseChildKeys H n r cs (getProp (selectedKeysByRoot (data s)) r) [] s = None"
      using loop[OF h(1,2)] by blast
    then show ?thesis using cs(1) h(1) by simp
  qed
  have R: "A \<subseteq> expandedSet r s2"
    if h: "childKeyMap (data s) = cm0" "A \<subseteq> expandedSet r s" "collapseNode H (Suc n) r z s = Some s2"
    for s z s2
  proof -
    have z: "z \<notin> A" using P[OF h(1,2)] h(3) by force
    show ?thesis
    proof (cases "getProp (childKeyMap (data s)) z")
      case None
      with h(3) have "s2 = collapseSelf r z [] s" by simp
      then show ?thesis using h(2) z by auto
    next
      case (Some cs)
      with h(3) obtain ecs s1 where l: "collapseChildKeys H n r cs
            (getProp (selectedKeysByRoot (data s)) r) [] s = Some (ecs, s1)"
        and s2: "s2 = collapseSelf r z ecs s1"
        by (auto split: option.splits)
      have "A \<subseteq> expandedSet r s1" using keep[OF h(1,2) l] by blast
      then show ?thesis using z by (auto simp: s2)
    qed
  qed
  show ?case using P R by blast
qed

lemma collapse_cycle_loop:
  assumes closed: "\<And>a. a \<in> A \<Longrightarrow>
     \<exists>cs c. getProp (childKeyMap (data s)) a = Some cs \<and> c \<in> set cs \<and> isDirKey H c \<and> c \<in> A"
    and "A \<subseteq> expandedSet r s" "\<exists>c \<in> set cs. isDirKey H c \<and> c \<in> A"
  shows "collapseChildKeys H n r cs sel acc s = None"
proof -
  have cyc: "(\<forall>t y. childKeyMap (data t) = childKeyMap (data s) \<longrightarrow> A \<subseteq> expandedSet r t \<longrightarrow>
            y \<in> A \<longrightarrow> collapseNode H n r y t = None) \<and>
         (\<forall>t z t2. childKeyMap (data t) = childKeyMap (data s) \<longrightarrow> A \<subseteq> expandedSet r t \<longrightarrow>
            collapseNode H n r z t = Some t2 \<longrightarrow> A \<subseteq> expandedSet r t2)"
    by (rule collapse_cycle) (rule closed)
  have P: "collapseNode H n r y t = None"
    if "childKeyMap (data t) = childKeyMap (data s)" "A \<subseteq> expandedSet r t" "y \<in> A" for t y
    using cyc that by blast
  have R: "A \<subseteq> expandedSet r t2"
    if "childKeyMap (data t) = childKeyMap (data s)" "A \<subseteq> expandedSet r t"
      "collapseNode H n r z t = Some t2" for t z t2
    using cyc that by blast
  have "childKeyMap (data t) = childKeyMap (data s) \<Longrightarrow> A \<subseteq> expandedSet r t \<Longrightarrow>
      \<exists>c \<in> set cs. isDirKey H c \<and> c \<in> A \<Longrightarrow> collapseChildKeys H n r cs sel acc t = None"
    for cs sel acc t
  proof (induction cs arbitrary: sel acc t)
    case Nil
    then show ?case by simp
  next
    case (Cons c cs)
    let ?sa = "unselectChild r c sel t"
    have a: "childKeyMap (data ?sa) = childKeyMap (data s)" "A \<subseteq> expandedSet r ?sa"
      using Cons.prems by simp_all
    show ?case
    proof (cases "isDirKey H c \<and> isExpanded r c ?sa")
      case True
      show ?thesis
      proof (cases "collapseNode H n r c ?sa")
        case None
        then show ?thesis using True by simp
      next
        case (Some sb)
        then have "c \<notin> A" using P[OF a] by force
        then have ex: "\<exists>c \<in> set cs. isDirKey H c \<and> c \<in> A" using Cons.prems(3) by auto
        have "A \<subseteq> expandedSet r sb" using R[OF a Some] .
        moreover have "childKeyMap (data sb) = childKeyMap (data s)"
          using collapse_frame(1)[of H n r c ?sa sb] Some a(1) by (simp add: collapseFrame_def)
        ultimately have "collapseChildKeys H n r cs (unselected c sel) (acc @ [c]) sb = None"
          using Cons.IH ex by blast
        then show ?thesis using True Some by simp
      qed
    next
      case False
      then have "c \<notin> A \<or> \<not> isDirKey H c" using a(2) by (auto simp: isExpanded_expandedSet)
      then have ex: "\<exists>c \<in> set cs. isDirKey H c \<and> c \<in> A" using Cons.prems(3) by auto
      have "collapseChildKeys H n r cs (unselected c sel) acc ?sa = None"
        using Cons.IH a ex by blast
      then show ?thesis using False by auto
    qed
  qed
  then show ?thesis using assms(2,3) by blast
qed

lemma collapse_keeps_node:
  assumes run: "collapseChildKeys H n r cs sel acc s = Some (ecs, s1)"
    and cs: "getProp (childKeyMap (data s)) x = Some cs" and x: "x \<in> expandedSet r s"
  shows "x \<in> expandedSet r s1"
proof (rule ccontr)
  assume "x \<notin> expandedSet r s1"
  then obtain c where c: "c \<in> set cs" "isDirKey H c" "c \<in> expandedSet r s" "expandedPath H r s c x"
    using collapse_path(2)[of H n r cs sel acc s ecs s1 x] run x by blast
  let ?A = "{y \<in> expandedSet r s. expandedPath H r s y x}"
  have closed: "\<exists>cs c. getProp (childKeyMap (data s)) a = Some cs \<and> c \<in> set cs \<and> isDirKey H c \<and> c \<in> ?A"
    if "a \<in> ?A" for a
  proof (cases "a = x")
    case True
    then show ?thesis using cs c by blast
  next
    case False
    from that have "expandedPath H r s a x" by simp
    then show ?thesis using False by (cases rule: expandedPath.cases) auto
  qed
  have "collapseChildKeys H n r cs sel acc s = None"
    by (rule collapse_cycle_loop[of ?A s H r cs n sel acc]) (use closed c in auto)
  with run show False by simp
qed

lemma expandSelf_props [simp]:
  "expandedSet r (expandSelf r x t) = insert x (expandedSet r t)"
  "getPreviouslyExpanded r (expandSelf r x t) = getPreviouslyExpanded r t"
  by (auto simp: expandSelf_def expandedSet_def getExpandedKeys_def setExpandedKeys_def
      getPreviouslyExpanded_def add_def has_def split: option.splits)

lemma setPreviouslyExpanded_props [simp]:
  "expandedSet r (setPreviouslyExpanded r P t) = expandedSet r t"
  "getPreviouslyExpanded r (setPreviouslyExpanded r P t) = P"
  by (simp_all add: setPreviouslyExpanded_def expandedSet_def getExpandedKeys_def
      getPreviouslyExpanded_def)

lemma prevEntry_expand [simp]:
  "prevEntry r (expandSelf r x t) y = prevEntry r t y"
  "prevEntry r (setPreviouslyExpanded r P t) y = getProp P y"
  by (simp_all add: prevEntry_def)

lemma collapse_then_expand:
  "collapseNode H n r x s = Some s' \<longrightarrow> x \<in> expandedSet r s \<longrightarrow>
     (\<forall>t. (\<forall>y \<in> expandedSet r s - expandedSet r s'. prevEntry r t y = prevEntry r s' y) \<longrightarrow>
        (\<exists>t'. expandNode n r x t = Some t' \<and>
              expandedSet r t' = expandedSet r t \<union> (expandedSet r s - expandedSet r s') \<and>
              (\<forall>y. prevEntry r t' y = (if y = x then None else prevEntry r t y))))"
  "collapseChildKeys H n r cs sel acc s = Some (ecs, s') \<longrightarrow>
     (\<exists>new. ecs = acc @ new \<and>
        (\<forall>t. (\<forall>y \<in> expandedSet r s - expandedSet r s'. prevEntry r t y = prevEntry r s' y) \<longrightarrow>
           (\<exists>t'. expandChildKeys n r new t = Some t' \<and>
                 expandedSet r t' = expandedSet r t \<union> (expandedSet r s - expandedSet r s') \<and>
                 (\<forall>y. prevEntry r t' y = (if y \<in> set new then None else prevEntry r t y)))))"
proof (induction H n r x s and H n r cs sel acc s arbitrary: s' and ecs s'
       rule: collapseNode_collapseChildKeys.induct)
  case (1 H rootKey nodeKey s)
  show ?case by simp
next
  case (2 H n rootKey nodeKey s)
  show ?case
  proof (intro impI allI)
    fix t
    assume run: "collapseNode H (Suc n) rootKey nodeKey s = Some s'"
      and x: "nodeKey \<in> expandedSet rootKey s"
      and agree: "\<forall>y \<in> expandedSet rootKey s - expandedSet rootKey s'.
                    prevEntry rootKey t y = prevEntry rootKey s' y"
    let ?t1 = "expandSelf rootKey nodeKey t"
    let ?goal = "\<exists>t'. expandNode (Suc n) rootKey nodeKey t = Some t' \<and>
              expandedSet rootKey t' = expandedSet rootKey t \<union> (expandedSet rootKey s - expandedSet rootKey s') \<and>
              (\<forall>y. prevEntry rootKey t' y = (if y = nodeKey then None else prevEntry rootKey t y))"
    show ?goal
    proof (cases "getProp (childKeyMap (data s)) nodeKey")
      case None
      with run have s': "s' = collapseSelf rootKey nodeKey [] s" by simp
      have "prevEntry rootKey t nodeKey = None" using agree x by (simp add: s')
      then have "expandNode (Suc n) rootKey nodeKey t = Some ?t1" by (simp add: prevEntry_def)
      moreover have "expandedSet rootKey s - expandedSet rootKey s' = {nodeKey}" using x by (auto simp: s')
      ultimately show ?thesis using \<open>prevEntry rootKey t nodeKey = None\<close>
        by (simp add: prevEntry_def)
    next
      case (Some childKeys)
      with run obtain ecs s1 where l: "collapseChildKeys H n rootKey childKeys
            (getProp (selectedKeysByRoot (data s)) rootKey) [] s = Some (ecs, s1)"
        and s': "s' = collapseSelf rootKey nodeKey ecs s1"
        by (auto split: option.splits)
      have x1: "nodeKey \<in> expandedSet rootKey s1" using collapse_keeps_node[OF l Some x] .
      have sub1: "expandedSet rootKey s1 \<subseteq> expandedSet rootKey s"
        using collapse_frame(2) l collapseFrame_E by blast
      have diff: "expandedSet rootKey s - expandedSet rootKey s'
                  = insert nodeKey (expandedSet rootKey s - expandedSet rootKey s1)"
        using x by (auto simp: s')
      have px: "prevEntry rootKey t nodeKey = (if ecs \<noteq> [] then Some ecs else None)"
        using agree diff by (simp add: s')
      from "2.IH"[OF Some, of ecs s1] l
      have sim: "\<And>u. (\<forall>y \<in> expandedSet rootKey s - expandedSet rootKey s1.
                      prevEntry rootKey u y = prevEntry rootKey s1 y) \<Longrightarrow>
           (\<exists>t'. expandChildKeys n rootKey ecs u = Some t' \<and>
                 expandedSet rootKey t' = expandedSet rootKey u \<union> (expandedSet rootKey s - expandedSet rootKey s1) \<and>
                 (\<forall>y. prevEntry rootKey t' y = (if y \<in> set ecs then None else prevEntry rootKey u y)))"
        by auto
      show ?thesis
      proof (cases "ecs = []")
        case True
        then have "expandedSet rootKey s1 = expandedSet rootKey s"
          using collapse_prev(2)[of H n rootKey childKeys _ "[]" s ecs s1] l by auto
        then have d: "expandedSet rootKey s - expandedSet rootKey s' = {nodeKey}" using diff by simp
        have "expandNode (Suc n) rootKey nodeKey t = Some ?t1" using px True by (simp add: prevEntry_def)
        then show ?thesis using px True d by (simp add: prevEntry_def)
      next
        case False
        have "\<forall>y \<in> expandedSet rootKey s - expandedSet rootKey s1.
                 prevEntry rootKey ?t1 y = prevEntry rootKey s1 y"
        proof
          fix y assume y: "y \<in> expandedSet rootKey s - expandedSet rootKey s1"
          then have "y \<noteq> nodeKey" using x1 by auto
          moreover have "prevEntry rootKey t y = prevEntry rootKey s' y" using agree y diff by auto
          ultimately show "prevEntry rootKey ?t1 y = prevEntry rootKey s1 y"
            by (simp add: s')
        qed
        then obtain t2 where t2: "expandChildKeys n rootKey ecs ?t1 = Some t2"
          "expandedSet rootKey t2 = expandedSet rootKey ?t1 \<union> (expandedSet rootKey s - expandedSet rootKey s1)"
          using sim[of ?t1] by blast
        let ?t' = "setPreviouslyExpanded rootKey
                     (deleteProperty (getPreviouslyExpanded rootKey ?t1) nodeKey) t2"
        have "expandNode (Suc n) rootKey nodeKey t = Some ?t'"
          using px False t2(1) by (simp add: prevEntry_def)
        moreover have "expandedSet rootKey ?t' = expandedSet rootKey t \<union> (expandedSet rootKey s - expandedSet rootKey s')"
          using t2(2) diff by auto
        moreover have "\<forall>y. prevEntry rootKey ?t' y = (if y = nodeKey then None else prevEntry rootKey t y)"
          by (simp add: prevEntry_def)
        ultimately show ?thesis by blast
      qed
    qed
  qed
next
  case (3 H n rootKey selectedKeys expandedChildKeys s)
  show ?case by auto
next
  case (4 H n rootKey childKey childKeys selectedKeys expandedChildKeys s)
  let ?sa = "unselectChild rootKey childKey selectedKeys s"
  show ?case
  proof
    assume run: "collapseChildKeys H n rootKey (childKey # childKeys) selectedKeys expandedChildKeys s
                 = Some (ecs, s')"
    show "\<exists>new. ecs = expandedChildKeys @ new \<and>
        (\<forall>t. (\<forall>y \<in> expandedSet rootKey s - expandedSet rootKey s'. prevEntry rootKey t y = prevEntry rootKey s' y) \<longrightarrow>
           (\<exists>t'. expandChildKeys n rootKey new t = Some t' \<and>
                 expandedSet rootKey t' = expandedSet rootKey t \<union> (expandedSet rootKey s - expandedSet rootKey s') \<and>
                 (\<forall>y. prevEntry rootKey t' y = (if y \<in> set new then None else prevEntry rootKey t y))))"
    proof (cases "isDirKey H childKey \<and> isExpanded rootKey childKey ?sa")
      case False
      with run have rest: "collapseChildKeys H n rootKey childKeys (unselected childKey selectedKeys)
                     expandedChildKeys ?sa = Some (ecs, s')"
        by (auto split: option.splits)
      from "4.IH"(3)[OF False, of ecs s'] rest show ?thesis by simp
    next
      case True
      with run obtain sb where c: "collapseNode H n rootKey childKey ?sa = Some sb"
        and rest: "collapseChildKeys H n rootKey childKeys (unselected childKey selectedKeys)
                     (expandedChildKeys @ [childKey]) sb = Some (ecs, s')"
        by (auto split: option.splits)
      have cE: "childKey \<in> expandedSet rootKey ?sa" using True by (simp add: isExpanded_expandedSet)
      have e1: "expandedSet rootKey sb \<subseteq> expandedSet rootKey s" "childKey \<notin> expandedSet rootKey sb"
        using collapse_frame(1)[of H n rootKey childKey ?sa sb] c collapseFrame_E by fastforce+
      have e2: "expandedSet rootKey s' \<subseteq> expandedSet rootKey sb"
        using collapse_frame(2) rest collapseFrame_E by blast
      from "4.IH"(1)[OF True, of sb] c cE
      have sim1: "\<And>u. (\<forall>y \<in> expandedSet rootKey s - expandedSet rootKey sb.
                      prevEntry rootKey u y = prevEntry rootKey sb y) \<Longrightarrow>
           (\<exists>t'. expandNode n rootKey childKey u = Some t' \<and>
                 expandedSet rootKey t' = expandedSet rootKey u \<union> (expandedSet rootKey s - expandedSet rootKey sb) \<and>
                 (\<forall>y. prevEntry rootKey t' y = (if y = childKey then None else prevEntry rootKey u y)))"
        by simp
      from "4.IH"(2)[OF True c, of ecs s'] rest
      obtain new where new: "ecs = (expandedChildKeys @ [childKey]) @ new"
        and sim2: "\<And>u. (\<forall>y \<in> expandedSet rootKey sb - expandedSet rootKey s'.
                      prevEntry rootKey u y = prevEntry rootKey s' y) \<Longrightarrow>
           (\<exists>t'. expandChildKeys n rootKey new u = Some t' \<and>
                 expandedSet rootKey t' = expandedSet rootKey u \<union> (expandedSet rootKey sb - expandedSet rootKey s') \<and>
                 (\<forall>y. prevEntry rootKey t' y = (if y \<in> set new then None else prevEntry rootKey u y)))"
        by blast
      have keep: "prevEntry rootKey s' y = prevEntry rootKey sb y" if "y \<notin> expandedSet rootKey sb" for y
        using collapse_prev(2)[of H n rootKey childKeys _ _ sb ecs s'] rest that by blast
      have "\<exists>t'. expandChildKeys n rootKey (childKey # new) t = Some t' \<and>
                 expandedSet rootKey t' = expandedSet rootKey t \<union> (expandedSet rootKey s - expandedSet rootKey s') \<and>
                 (\<forall>y. prevEntry rootKey t' y = (if y \<in> set (childKey # new) then None else prevEntry rootKey t y))"
        if agree: "\<forall>y \<in> expandedSet rootKey s - expandedSet rootKey s'. prevEntry rootKey t y = prevEntry rootKey s' y"
        for t
      proof -
        have "\<forall>y \<in> expandedSet rootKey s - expandedSet rootKey sb. prevEntry rootKey t y = prevEntry rootKey sb y"
        proof
          fix y assume y: "y \<in> expandedSet rootKey s - expandedSet rootKey sb"
          then have "y \<in> expandedSet rootKey s - expandedSet rootKey s'" using e2 by auto
          then have "prevEntry rootKey t y = prevEntry rootKey s' y" using agree by blast
          then show "prevEntry rootKey t y = prevEntry rootKey sb y" using keep y by simp
        qed
        then obtain ta where ta: "expandNode n rootKey childKey t = Some ta"
          "expandedSet rootKey ta = expandedSet rootKey t \<union> (expandedSet rootKey s - expandedSet rootKey sb)"
          "\<forall>y. prevEntry rootKey ta y = (if y = childKey then None else prevEntry rootKey t y)"
          using sim1[of t] by blast
        have "\<forall>y \<in> expandedSet rootKey sb - expandedSet rootKey s'. prevEntry rootKey ta y = prevEntry rootKey s' y"
        proof
          fix y assume y: "y \<in> expandedSet rootKey sb - expandedSet rootKey s'"
          then have "y \<noteq> childKey" using e1(2) by auto
          then have "prevEntry rootKey ta y = prevEntry rootKey t y" using ta(3) by simp
          moreover have "y \<in> expandedSet rootKey s - expandedSet rootKey s'" using y e1(1) by auto
          ultimately show "prevEntry rootKey ta y = prevEntry rootKey s' y" using agree by simp
        qed
        then obtain t' where t': "expandChildKeys n rootKey new ta = Some t'"
          "expandedSet rootKey t' = expandedSet rootKey ta \<union> (expandedSet rootKey sb - expandedSet rootKey s')"
          "\<forall>y. prevEntry rootKey t' y = (if y \<in> set new then None else prevEntry rootKey ta y)"
          using sim2[of ta] by blast
        have "expandChildKeys n rootKey (childKey # new) t = Some t'" using ta(1) t'(1) by simp
        moreover have "expandedSet rootKey t' = expandedSet rootKey t \<union> (expandedSet rootKey s - expandedSet rootKey s')"
          using ta(2) t'(2) e1 e2 by auto
        moreover have "\<forall>y. prevEntry rootKey t' y = (if y \<in> set (childKey # new) then None else prevEntry rootKey t y)"
          using ta(3) t'(3) by simp
        ultimately show ?thesis by blast
      qed
      moreover have "ecs = expandedChildKeys @ (childKey # new)" using new by simp
      ultimately show ?thesis by blast
    qed
  qed
qed

subsection \<open>The depth bound\<close>

text \<open>A run that returns within one depth bound returns the same store within any larger one.\<close>

lemma purge_more_fuel:
  "purgeDirectory H n k s = Some s' \<longrightarrow> purgeDirectory H (Suc n) k s = Some s'"
  "purgeChildKeys H n cs s = Some s' \<longrightarrow> purgeChildKeys H (Suc n) cs s = Some s'"
proof (induction H n k s and H n cs s arbitrary: s' and s' rule: purgeDirectory_purgeChildKeys.induct)
  case (1 H nodeKey s)
  show ?case by simp
next
  case (2 H n nodeKey s)
  show ?case
  proof
    assume run: "purgeDirectory H (Suc n) nodeKey s = Some s'"
    show "purgeDirectory H (Suc (Suc n)) nodeKey s = Some s'"
    proof (cases "getProp (childKeyMap (data s)) nodeKey")
      case None
      with run show ?thesis by simp
    next
      case (Some childKeys)
      with run obtain s1 where s1: "purgeChildKeys H n childKeys s = Some s1"
        by (auto split: option.splits)
      then have "purgeChildKeys H (Suc n) childKeys s = Some s1" using "2.IH"[OF Some] by blast
      with run s1 Some show ?thesis by (simp del: purgeChildKeys.simps)
    qed
  qed
next
  case (3 H n s)
  show ?case by simp
next
  case (4 H n childKey childKeys s)
  show ?case
  proof
    assume run: "purgeChildKeys H n (childKey # childKeys) s = Some s'"
    show "purgeChildKeys H (Suc n) (childKey # childKeys) s = Some s'"
    proof (cases "isDirKey H childKey")
      case False
      with run "4.IH"(3)[OF False] show ?thesis by simp
    next
      case True
      with run obtain s1 where s1: "purgeDirectory H n childKey s = Some s1"
        and r: "purgeChildKeys H n childKeys s1 = Some s'"
        by (auto split: option.splits)
      have "purgeDirectory H (Suc n) childKey s = Some s1" using "4.IH"(1)[OF True] s1 by blast
      moreover have "purgeChildKeys H (Suc n) childKeys s1 = Some s'" using "4.IH"(2)[OF True s1] r by blast
      ultimately show ?thesis using True by (simp del: purgeDirectory.simps)
    qed
  qed
qed

lemma collapse_more_fuel:
  "collapseNode H n r x s = Some s' \<longrightarrow> collapseNode H (Suc n) r x s = Some s'"
  "collapseChildKeys H n r cs sel acc s = Some res \<longrightarrow>
     collapseChildKeys H (Suc n) r cs sel acc s = Some res"
proof (induction H n r x s and H n r cs sel acc s arbitrary: s' and res
       rule: collapseNode_collapseChildKeys.induct)
  case (1 H rootKey nodeKey s)
  show ?case by simp
next
  case (2 H n rootKey nodeKey s)
  show ?case
  proof
    assume run: "collapseNode H (Suc n) rootKey nodeKey s = Some s'"
    show "collapseNode H (Suc (Suc n)) rootKey nodeKey s = Some s'"
    proof (cases "getProp (childKeyMap (data s)) nodeKey")
      case None
      with run show ?thesis by simp
    next
      case (Some childKeys)
      with run obtain res where l: "collapseChildKeys H n rootKey childKeys
            (getProp (selectedKeysByRoot (data s)) rootKey) [] s = Some res"
        by (auto split: option.splits)
      then have "collapseChildKeys H (Suc n) rootKey childKeys
            (getProp (selectedKeysByRoot (data s)) rootKey) [] s = Some res"
        using "2.IH"[OF Some] by blast
      with run l Some show ?thesis by (simp del: collapseChildKeys.simps)
    qed
  qed
next
  case (3 H n rootKey selectedKeys expandedChildKeys s)
  show ?case by simp
next
  case (4 H n rootKey childKey childKeys selectedKeys expandedChildKeys s)
  let ?sa = "unselectChild rootKey childKey selectedKeys s"
  show ?case
  proof
    assume run: "collapseChildKeys H n rootKey (childKey # childKeys) selectedKeys expandedChildKeys s
                 = Some res"
    show "collapseChildKeys H (Suc n) rootKey (childKey # childKeys) selectedKeys expandedChildKeys s
                 = Some res"
    proof (cases "isDirKey H childKey \<and> isExpanded rootKey childKey ?sa")
      case False
      with run "4.IH"(3)[OF False] show ?thesis by auto
    next
      case True
      with run obtain sb where c: "collapseNode H n rootKey childKey ?sa = Some sb"
        and rest: "collapseChildKeys H n rootKey childKeys (unselected childKey selectedKeys)
                     (expandedChildKeys @ [childKey]) sb = Some res"
        by (auto split: option.splits)
      have "collapseNode H (Suc n) rootKey childKey ?sa = Some sb" using "4.IH"(1)[OF True] c by blast
      moreover have "collapseChildKeys H (Suc n) rootKey childKeys (unselected childKey selectedKeys)
                     (expandedChildKeys @ [childKey]) sb = Some res"
        using "4.IH"(2)[OF True c] rest by blast
      ultimately show ?thesis using True by (simp del: collapseNode.simps)
    qed
  qed
qed

lemma expand_more_fuel:
  "expandNode n r x s = Some s' \<longrightarrow> expandNode (Suc n) r x s = Some s'"
  "expandChildKeys n r cs s = Some s' \<longrightarrow> expandChildKeys (Suc n) r cs s = Some s'"
proof (induction n r x s and n r cs s arbitrary: s' and s' rule: expandNode_expandChildKeys.induct)
  case (1 rootKey nodeKey s)
  show ?case by simp
next
  case (2 n rootKey nodeKey s)
  show ?case
  proof
    assume run: "expandNode (Suc n) rootKey nodeKey s = Some s'"
    show "expandNode (Suc (Suc n)) rootKey nodeKey s = Some s'"
    proof (cases "getProp (getPreviouslyExpanded rootKey (expandSelf rootKey nodeKey s)) nodeKey")
      case None
      then have "expandNode (Suc n) rootKey nodeKey s = Some (expandSelf rootKey nodeKey s)"
        "expandNode (Suc (Suc n)) rootKey nodeKey s = Some (expandSelf rootKey nodeKey s)"
        by simp_all
      with run show ?thesis by simp
    next
      case (Some childKeys)
      with run obtain s2 where l: "expandChildKeys n rootKey childKeys (expandSelf rootKey nodeKey s) = Some s2"
        by (auto split: option.splits)
      then have "expandChildKeys (Suc n) rootKey childKeys (expandSelf rootKey nodeKey s) = Some s2"
        using "2.IH"[OF Some] by blast
      with run l Some show ?thesis by (simp del: expandChildKeys.simps)
    qed
  qed
next
  case (3 n rootKey s)
  show ?case by simp
next
  case (4 n rootKey childKey childKeys s)
  show ?case
  proof
    assume run: "expandChildKeys n rootKey (childKey # childKeys) s = Some s'"
    then obtain s1 where c: "expandNode n rootKey childKey s = Some s1"
      and rest: "expandChildKeys n rootKey childKeys s1 = Some s'"
      by (auto split: option.splits)
    have "expandNode (Suc n) rootKey childKey s = Some s1" using "4.IH"(1) c by blast
    moreover have "expandChildKeys (Suc n) rootKey childKeys s1 = Some s'" using "4.IH"(2)[OF c] rest by blast
    ultimately show "expandChildKeys (Suc n) rootKey (childKey # childKeys) s = Some s'"
      by (simp del: expandNode.simps)
  qed
qed

lemma purgeDirectory_fuel_le:
  "n \<le> m \<Longrightarrow> purgeDirectory H n k s = Some s' \<Longrightarrow> purgeDirectory H m k s = Some s'"
proof (induction m)
  case 0
  then show ?case by simp
next
  case (Suc m)
  show ?case
  proof (cases "n = Suc m")
    case True
    then show ?thesis using Suc.prems(2) by simp
  next
    case False
    then have "n \<le> m" using Suc.prems(1) by simp
    then have "purgeDirectory H m k s = Some s'" using Suc.IH Suc.prems(2) by blast
    then show ?thesis using purge_more_fuel(1) by blast
  qed
qed

lemma purgeDirectory_fuel_independent:
  assumes "purgeDirectory H n k s = Some a" "purgeDirectory H m k s = Some b"
  shows "a = b"
proof (cases "n \<le> m")
  case True
  then show ?thesis using purgeDirectory_fuel_le[OF True assms(1)] assms(2) by simp
next
  case False
  then have "m \<le> n" by simp
  then show ?thesis using purgeDirectory_fuel_le[OF _ assms(2)] assms(1) by simp
qed

lemma collapseNode_fuel_le:
  "n \<le> m \<Longrightarrow> collapseNode H n r x s = Some s' \<Longrightarrow> collapseNode H m r x s = Some s'"
proof (induction m)
  case 0
  then show ?case by simp
next
  case (Suc m)
  show ?case
  proof (cases "n = Suc m")
    case True
    then show ?thesis using Suc.prems(2) by simp
  next
    case False
    then have "n \<le> m" using Suc.prems(1) by simp
    then have "collapseNode H m r x s = Some s'" using Suc.IH Suc.prems(2) by blast
    then show ?thesis using collapse_more_fuel(1) by blast
  qed
qed

lemma collapseNode_fuel_independent:
  assumes "collapseNode H n r x s = Some a" "collapseNode H m r x s = Some b"
  shows "a = b"
proof (cases "n \<le> m")
  case True
  then show ?thesis using collapseNode_fuel_le[OF True assms(1)] assms(2) by simp
next
  case False
  then have "m \<le> n" by simp
  then show ?thesis using collapseNode_fuel_le[OF _ assms(2)] assms(1) by simp
qed

lemma expandNode_fuel_le:
  "n \<le> m \<Longrightarrow> expandNode n r x s = Some s' \<Longrightarrow> expandNode m r x s = Some s'"
proof (induction m)
  case 0
  then show ?case by simp
next
  case (Suc m)
  show ?case
  proof (cases "n = Suc m")
    case True
    then show ?thesis using Suc.prems(2) by simp
  next
    case False
    then have "n \<le> m" using Suc.prems(1) by simp
    then have "expandNode m r x s = Some s'" using Suc.IH Suc.prems(2) by blast
    then show ?thesis using expand_more_fuel(1) by blast
  qed
qed

lemma expandNode_fuel_independent:
  assumes "expandNode n r x s = Some a" "expandNode m r x s = Some b"
  shows "a = b"
proof (cases "n \<le> m")
  case True
  then show ?thesis using expandNode_fuel_le[OF True assms(1)] assms(2) by simp
next
  case False
  then have "m \<le> n" by simp
  then show ?thesis using expandNode_fuel_le[OF _ assms(2)] assms(1) by simp
qed

text \<open>
  Claim C8. Collapsing a key \<open>k\<close> that is expanded under the root \<open>r\<close> returns on every
  cache whose child keys are longer than their parents. When it has returned, \<open>k\<close> is not
  expanded under \<open>r\<close>, and expanding \<open>k\<close> under \<open>r\<close> again returns (within the same depth); the
  store it returns, within whatever depth, is one where the keys expanded under \<open>r\<close> are
  exactly those expanded before the collapse and where \<open>k\<close> has no \<^verbatim>\<open>previouslyExpanded\<close>
  entry under \<open>r\<close>.
\<close>

theorem collapse_expand_restores:
  "(properChildren s \<longrightarrow> (\<exists>m. collapseNode H m r k s \<noteq> None)) \<and>
   (isExpanded r k s \<longrightarrow> collapseNode H n r k s = Some s' \<longrightarrow>
      \<not> isExpanded r k s' \<and>
      expandNode n r k s' \<noteq> None \<and>
      (\<forall>m s''. expandNode m r k s' = Some s'' \<longrightarrow>
         expandedSet r s'' = expandedSet r s \<and> prevEntry r s'' k = None))"
proof -
  have total: "properChildren s \<longrightarrow> (\<exists>m. collapseNode H m r k s \<noteq> None)"
    using collapseNode_total by blast
  have after: "\<not> isExpanded r k s' \<and> expandNode n r k s' \<noteq> None \<and>
      (\<forall>m s''. expandNode m r k s' = Some s'' \<longrightarrow>
         expandedSet r s'' = expandedSet r s \<and> prevEntry r s'' k = None)"
    if k: "isExpanded r k s" and run: "collapseNode H n r k s = Some s'"
  proof -
    have kE: "k \<in> expandedSet r s" using k by (simp add: isExpanded_expandedSet)
    have fr: "collapseFrame r s s'" "k \<notin> expandedSet r s'"
      using collapse_frame(1) run by blast+
    have sub: "expandedSet r s' \<subseteq> expandedSet r s" using fr(1) by (rule collapseFrame_E)
    have "\<exists>t. expandNode n r k s' = Some t \<and>
        expandedSet r t = expandedSet r s' \<union> (expandedSet r s - expandedSet r s') \<and>
        (\<forall>y. prevEntry r t y = (if y = k then None else prevEntry r s' y))"
      using collapse_then_expand(1)[of H n r k s s'] run kE by blast
    then obtain t where t: "expandNode n r k s' = Some t"
      "expandedSet r t = expandedSet r s' \<union> (expandedSet r s - expandedSet r s')"
      "\<forall>y. prevEntry r t y = (if y = k then None else prevEntry r s' y)"
      by blast
    have restored: "expandedSet r t = expandedSet r s \<and> prevEntry r t k = None"
      using t(2,3) sub by auto
    have "expandedSet r s'' = expandedSet r s \<and> prevEntry r s'' k = None"
      if ex: "expandNode m r k s' = Some s''" for m s''
    proof -
      have "s'' = t" using ex t(1) by (rule expandNode_fuel_independent)
      then show ?thesis using restored by simp
    qed
    then show ?thesis using fr(2) t(1) by (simp add: isExpanded_expandedSet)
  qed
  show ?thesis using total after by blast
qed

theorem collapse_expand_restores_witness:
  "properChildren cachedTreeStore \<and> isExpanded ''/a/'' ''/a/'' cachedTreeStore \<and>
   expandedSet ''/a/'' cachedTreeStore = {''/a/'', ''/a/d/''} \<and>
   map_option (getExpandedKeys ''/a/'') (collapseNode pathHelpers 3 ''/a/'' ''/a/'' cachedTreeStore)
     = Some [] \<and>
   (\<exists>s' s''. collapseNode pathHelpers 3 ''/a/'' ''/a/'' cachedTreeStore = Some s' \<and>
      expandNode 3 ''/a/'' ''/a/'' s' = Some s'' \<and>
      expandedSet ''/a/'' s'' = {''/a/'', ''/a/d/''} \<and> prevEntry ''/a/'' s'' ''/a/'' = None)"
proof -
  have h: "properChildren cachedTreeStore" "isExpanded ''/a/'' ''/a/'' cachedTreeStore"
    "map_option (getExpandedKeys ''/a/'') (collapseNode pathHelpers 3 ''/a/'' ''/a/'' cachedTreeStore)
       = Some []"
    by code_simp+
  have e: "expandedSet ''/a/'' cachedTreeStore = {''/a/'', ''/a/d/''}"
    by (simp add: expandedSet_def getExpandedKeys_def cachedTreeStore_def getProp_def)
  from h(3) obtain s' where run: "collapseNode pathHelpers 3 ''/a/'' ''/a/'' cachedTreeStore = Some s'"
    by auto
  from collapse_expand_restores [of cachedTreeStore pathHelpers "''/a/''" "''/a/''" 3 s'] h(2) run
  have r: "expandNode 3 ''/a/'' ''/a/'' s' \<noteq> None"
    "\<forall>m s''. expandNode m ''/a/'' ''/a/'' s' = Some s'' \<longrightarrow>
      expandedSet ''/a/'' s'' = expandedSet ''/a/'' cachedTreeStore \<and>
      prevEntry ''/a/'' s'' ''/a/'' = None"
    by blast+
  from r(1) obtain s'' where "expandNode 3 ''/a/'' ''/a/'' s' = Some s''"
    by blast
  then show ?thesis using h e run r(2) by metis
qed

end
